theory Spec2Isabelle
  imports Complex_Main
begin

section \<open>Strings, values and the runtime's Unicode tables\<close>

text \<open>
  A JavaScript string is a sequence of UTF-16 code units; \<open>length\<close> and indexing count
  code units, as \<open>s.length\<close> and \<open>s[i]\<close> do. Characters outside the Basic Multilingual
  Plane (surrogate pairs) are outside the modelled range: the \<open>u\<close>-flagged regular
  expressions of \<open>normalize\<close> would see such a pair as one code point, the model sees two
  code units.
\<close>

type_synonym jsstring = "nat list"

definition str :: "string \<Rightarrow> jsstring" where
  "str s = map of_char s"

text \<open>
  The values a caller can pass where the code expects text. Numbers are the integers
  of magnitude below \<open>10^21\<close>, which \<open>String\<close> prints digit by digit (\<open>NaN\<close>,
  fractions and the exponent notation of larger numbers are not modelled).
\<close>

datatype jsval = Undefined | Null | Bool bool | Num int | Str jsstring

datatype error = TypeError | Error

fun falsy :: "jsval \<Rightarrow> bool" where
  "falsy Undefined = True"
| "falsy Null = True"
| "falsy (Bool b) = (\<not> b)"
| "falsy (Num n) = (n = 0)"
| "falsy (Str s) = (s = [])"

fun digits :: "nat \<Rightarrow> jsstring" where
  "digits n = (if n < 10 then [48 + n] else digits (n div 10) @ [48 + n mod 10])"

declare digits.simps [simp del]

fun String_of :: "jsval \<Rightarrow> jsstring" where
  "String_of Undefined = str ''undefined''"
| "String_of Null = str ''null''"
| "String_of (Bool b) = (if b then str ''true'' else str ''false'')"
| "String_of (Num n) = (if n < 0 then 45 # digits (nat (- n)) else digits (nat n))"
| "String_of (Str s) = s"

text \<open>
  The parts of the JavaScript runtime that depend on the Unicode Character Database are
  not code of the repository; they are a parameter of the model:
  \<open>String.prototype.toLowerCase\<close>, \<open>String.prototype.normalize('NFD')\<close>, the
  properties \<open>\p{Diacritic}\<close> and \<open>\p{Punctuation}\<close>, and the white space class shared
  by \<open>trim\<close> and \<open>\s\<close>.
\<close>

record unicode =
  toLowerCase :: "jsstring \<Rightarrow> jsstring"
  nfd :: "jsstring \<Rightarrow> jsstring"
  Diacritic :: "nat \<Rightarrow> bool"
  Punctuation :: "nat \<Rightarrow> bool"
  WhiteSpace :: "nat \<Rightarrow> bool"

fun trimEnd :: "unicode \<Rightarrow> jsstring \<Rightarrow> jsstring" where
  "trimEnd U [] = []"
| "trimEnd U (c # cs) =
     (let r = trimEnd U cs in if r = [] \<and> WhiteSpace U c then [] else c # r)"

definition trim :: "unicode \<Rightarrow> jsstring \<Rightarrow> jsstring" where
  "trim U s = trimEnd U (dropWhile (WhiteSpace U) s)"

text \<open>\<open>s.replace(/\s+/g, ' ')\<close>: every maximal run of white space becomes one space.\<close>

function collapse_ws :: "unicode \<Rightarrow> jsstring \<Rightarrow> jsstring" where
  "collapse_ws U [] = []"
| "collapse_ws U (c # cs) =
     (if WhiteSpace U c then 32 # collapse_ws U (dropWhile (WhiteSpace U) cs)
      else c # collapse_ws U cs)"
  by pat_completeness auto
termination
  by (relation "measure (\<lambda>(U, s). length s)")
     (auto simp: less_Suc_eq_le length_dropWhile_le)

text \<open>
  \<open>normalize(text)\<close> of \<open>HTUAssistant\<close>: lowercase, trim, decompose and drop diacritics,
  turn punctuation into spaces, collapse white space, trim.
\<close>

definition normalize_text :: "unicode \<Rightarrow> jsval \<Rightarrow> jsstring" where
  "normalize_text U text =
     (if falsy text \<and> text \<noteq> Num 0 then []
      else
        let s = trim U (toLowerCase U (String_of text));
            s = filter (\<lambda>c. \<not> Diacritic U c) (nfd U s);
            s = trim U (collapse_ws U (map (\<lambda>c. if Punctuation U c then 32 else c) s))
        in s)"

text \<open>
  The shape of a string after \<open>replace(/\s+/g, ' ')\<close>: every white space character is a
  space, and no two stand side by side.
\<close>

fun single_spaced :: "unicode \<Rightarrow> jsstring \<Rightarrow> bool" where
  "single_spaced U [] = True"
| "single_spaced U (c # cs) =
     ((if WhiteSpace U c then c = 32 \<and> (case cs of [] \<Rightarrow> True | d # ds \<Rightarrow> \<not> WhiteSpace U d)
       else True)
      \<and> single_spaced U cs)"

subsection \<open>The Unicode tables on the code points the examples use\<close>

text \<open>
  An instance of the parameter, for evaluating examples. The Unicode Character Database
  is not part of the repository; the tables below are those of Unicode 15 restricted to
  Basic Latin (U+0000..U+007F) and the two combining marks U+0359 COMBINING ASTERISK
  BELOW (canonical combining class 220) and U+0363 COMBINING LATIN SMALL LETTER A
  (class 230), neither of which has the Diacritic property; \<open>^\<close> and \<open>`\<close> are the
  Basic Latin characters that have it. Any other code unit is treated as a caseless
  letter that does not decompose; the concrete evaluations below stay inside the range
  given here.
\<close>

definition ccc :: "nat \<Rightarrow> nat" where
  "ccc c = (if c = 0x359 then 220 else if c = 0x363 then 230 else 0)"

text \<open>
  Canonical ordering: each maximal run of characters with a non-zero combining class
  is sorted by class, stably. No character of the range has a decomposition.
\<close>

fun canonical_order :: "nat list \<Rightarrow> nat list \<Rightarrow> nat list" where
  "canonical_order run [] = sort_key ccc run"
| "canonical_order run (c # cs) =
     (if ccc c = 0 then sort_key ccc run @ c # canonical_order [] cs
      else canonical_order (run @ [c]) cs)"

definition ucd :: unicode where
  "ucd = \<lparr> toLowerCase = map (\<lambda>c. if 65 \<le> c \<and> c \<le> 90 then c + 32 else c),
           nfd = canonical_order [],
           Diacritic = (\<lambda>c. c \<in> set [0x5E, 0x60]),
           Punctuation = (\<lambda>c. c \<in> set [33, 34, 35, 37, 38, 39, 40, 41, 42, 44, 45, 46, 47,
                                         58, 59, 63, 64, 91, 92, 93, 95, 123, 125]),
           WhiteSpace = (\<lambda>c. c \<in> set [9, 10, 11, 12, 13, 32]) \<rparr>"

section \<open>Similarity scores\<close>

text \<open>
  Scores are JavaScript numbers; the model computes them in exact rational arithmetic,
  and \<open>Math.round\<close> below rounds the exact value. Where a double differs from the
  exact value in its last digit, the comparison with \<open>0.70\<close> and the rounding of the
  fuzzy branch can come out differently in the code. The theorems on deduplication,
  order and truncation hold for whatever value the fuzzy branch contributes.
\<close>

subsection \<open>\<open>jaroWinkler\<close>\<close>

definition matchDistance :: "jsstring \<Rightarrow> jsstring \<Rightarrow> int" where
  "matchDistance s1 s2 = int (max (length s1) (length s2) div 2) - 1"

text \<open>
  The inner loop \<open>for (j = start; j < end; j++)\<close>: the first slot of the window that is
  not yet matched and holds the character \<open>c\<close>.
\<close>

function scan_window :: "nat \<Rightarrow> jsstring \<Rightarrow> bool list \<Rightarrow> nat \<Rightarrow> nat \<Rightarrow> nat option" where
  "scan_window c s2 s2Matches j e =
     (if j < e then
        (if s2Matches ! j then scan_window c s2 s2Matches (Suc j) e
         else if c \<noteq> s2 ! j then scan_window c s2 s2Matches (Suc j) e
         else Some j)
      else None)"
  by pat_completeness auto
termination
  by (relation "measure (\<lambda>(c, s2, m, j, e). e - j)") auto

declare scan_window.simps [simp del]

definition match_step ::
  "jsstring \<Rightarrow> jsstring \<Rightarrow> nat \<Rightarrow> bool list \<times> bool list \<times> nat \<Rightarrow> bool list \<times> bool list \<times> nat" where
  "match_step s1 s2 i st =
     (case st of (s1Matches, s2Matches, matches) \<Rightarrow>
        let start = nat (max 0 (int i - matchDistance s1 s2));
            e = nat (min (int i + matchDistance s1 s2 + 1) (int (length s2)))
        in (case scan_window (s1 ! i) s2 s2Matches start e of
              None \<Rightarrow> st
            | Some j \<Rightarrow> (s1Matches[i := True], s2Matches[j := True], Suc matches)))"

definition match_loop :: "jsstring \<Rightarrow> jsstring \<Rightarrow> bool list \<times> bool list \<times> nat" where
  "match_loop s1 s2 =
     fold (match_step s1 s2) [0..<length s1]
       (replicate (length s1) False, replicate (length s2) False, 0)"

text \<open>
  \<open>while (!s2Matches[k]) k++\<close>. The model stops the scan at the end of the array, where
  the source would read \<open>undefined\<close> and go on; lemma \<open>jaroWinkler_scans_in_range\<close> below
  shows that the second loop of \<open>jaroWinkler\<close> never gets there.
\<close>

function next_matched :: "bool list \<Rightarrow> nat \<Rightarrow> nat" where
  "next_matched ms k = (if k < length ms \<and> \<not> ms ! k then next_matched ms (Suc k) else k)"
  by pat_completeness auto
termination
  by (relation "measure (\<lambda>(ms, k). length ms - k)") auto

declare next_matched.simps [simp del]

function transp_loop ::
  "jsstring \<Rightarrow> jsstring \<Rightarrow> bool list \<Rightarrow> bool list \<Rightarrow> nat \<Rightarrow> nat \<Rightarrow> nat \<Rightarrow> nat" where
  "transp_loop s1 s2 s1Matches s2Matches i k t =
     (if i < length s1 then
        (if \<not> s1Matches ! i then transp_loop s1 s2 s1Matches s2Matches (Suc i) k t
         else
           let k' = next_matched s2Matches k
           in transp_loop s1 s2 s1Matches s2Matches (Suc i) (Suc k')
                (if s1 ! i \<noteq> s2 ! k' then Suc t else t))
      else t)"
  by pat_completeness auto
termination
  by (relation "measure (\<lambda>(s1, s2, m1, m2, i, k, t). length s1 - i)") auto

declare transp_loop.simps [simp del]

text \<open>The scans of the second loop all stop on a matched slot inside \<open>s2Matches\<close>.\<close>

function scans_in_range :: "bool list \<Rightarrow> bool list \<Rightarrow> nat \<Rightarrow> nat \<Rightarrow> bool" where
  "scans_in_range s1Matches s2Matches i k =
     (if i < length s1Matches then
        (if \<not> s1Matches ! i then scans_in_range s1Matches s2Matches (Suc i) k
         else next_matched s2Matches k < length s2Matches
              \<and> scans_in_range s1Matches s2Matches (Suc i) (Suc (next_matched s2Matches k)))
      else True)"
  by pat_completeness auto
termination
  by (relation "measure (\<lambda>(m1, m2, i, k). length m1 - i)") auto

declare scans_in_range.simps [simp del]

function common_prefix :: "jsstring \<Rightarrow> jsstring \<Rightarrow> nat \<Rightarrow> nat \<Rightarrow> nat" where
  "common_prefix s1 s2 i prefix =
     (if i < min 4 (min (length s1) (length s2)) then
        (if s1 ! i = s2 ! i then common_prefix s1 s2 (Suc i) (Suc prefix) else prefix)
      else prefix)"
  by pat_completeness auto
termination
  by (relation "measure (\<lambda>(s1, s2, i, p). 4 - i)") auto

declare common_prefix.simps [simp del]

definition jaroWinkler :: "jsstring \<Rightarrow> jsstring \<Rightarrow> rat" where
  "jaroWinkler s1 s2 =
     (if s1 = [] \<or> s2 = [] then 0
      else
        case match_loop s1 s2 of (s1Matches, s2Matches, matches) \<Rightarrow>
          if matches = 0 then 0
          else
            let transpositions = of_nat (transp_loop s1 s2 s1Matches s2Matches 0 0 0) / 2;
                mF = of_nat matches;
                jaro = (mF / of_nat (length s1) + mF / of_nat (length s2)
                        + (mF - transpositions) / mF) / 3;
                prefix = of_nat (common_prefix s1 s2 0 0)
            in jaro + prefix * (1 / 10) * (1 - jaro))"

subsection \<open>\<open>calculateSimilarity\<close>\<close>

text \<open>
  Row \<open>i\<close> of the matrix from row \<open>i - 1\<close>: \<open>prev\<close> is \<open>matrix[i - 1]\<close> from column
  \<open>j - 1\<close> on, \<open>left\<close> is \<open>matrix[i][j - 1]\<close>, \<open>c\<close> is \<open>str2.charAt(i - 1)\<close>.
\<close>

fun fill_row :: "nat \<Rightarrow> jsstring \<Rightarrow> nat list \<Rightarrow> nat \<Rightarrow> nat list" where
  "fill_row c (x # xs) (d # p # ps) left =
     (let v = (if c = x then d else min (d + 1) (min (left + 1) (p + 1)))
      in v # fill_row c xs (p # ps) v)"
| "fill_row c _ _ left = []"

definition next_row :: "jsstring \<Rightarrow> nat \<Rightarrow> nat \<times> nat list \<Rightarrow> nat \<times> nat list" where
  "next_row str1 c st = (case st of (i, prev) \<Rightarrow> (Suc i, Suc i # fill_row c str1 prev (Suc i)))"

definition levenshtein :: "jsstring \<Rightarrow> jsstring \<Rightarrow> nat" where
  "levenshtein str1 str2 = last (snd (fold (next_row str1) str2 (0, [0..<Suc (length str1)])))"

definition calculateSimilarity :: "jsstring \<Rightarrow> jsstring \<Rightarrow> rat" where
  "calculateSimilarity str1 str2 =
     (let len1 = length str1; len2 = length str2
      in if len1 = 0 then (if len2 = 0 then 1 else 0)
         else if len2 = 0 then 0
         else
           let maxLen = max len1 len2
           in if maxLen = 0 then 1
              else (of_nat maxLen - of_nat (levenshtein str1 str2)) / of_nat maxLen)"

subsection \<open>\<open>tokenSimilarity\<close>\<close>

text \<open>\<open>s.split(' ')\<close> and \<open>s.split(' ').filter(Boolean)\<close>.\<close>

fun split_sp :: "jsstring \<Rightarrow> jsstring list" where
  "split_sp [] = [[]]"
| "split_sp (c # cs) =
     (if c = 32 then [] # split_sp cs
      else case split_sp cs of t # ts \<Rightarrow> (c # t) # ts | [] \<Rightarrow> [[c]])"

definition tokens :: "jsstring \<Rightarrow> jsstring list" where
  "tokens s = filter (\<lambda>t. t \<noteq> []) (split_sp s)"

definition best_match :: "jsstring \<Rightarrow> jsstring list \<Rightarrow> rat" where
  "best_match tokenA nb =
     fold (\<lambda>tokenB best. let jw = jaroWinkler tokenA tokenB in if jw > best then jw else best) nb 0"

definition tokenSimilarity :: "unicode \<Rightarrow> jsstring \<Rightarrow> jsstring \<Rightarrow> rat" where
  "tokenSimilarity U a b =
     (let na = tokens (normalize_text U (Str a));
          nb = tokens (normalize_text U (Str b))
      in if length na = 0 \<or> length nb = 0 then 0
         else fold (\<lambda>tokenA total. total + best_match tokenA nb) na 0 / of_nat (length na))"

text \<open>
  The token-aware similarity as the specification words it: for each token of the first
  sequence the best \<open>jaroWinkler\<close> score against any token of the second, averaged over
  the first sequence; 0 when either side has no tokens.
\<close>

definition tokenSimilarity_spec :: "unicode \<Rightarrow> jsstring \<Rightarrow> jsstring \<Rightarrow> rat" where
  "tokenSimilarity_spec U a b =
     (let na = tokens (normalize_text U (Str a));
          nb = tokens (normalize_text U (Str b))
      in if na = [] \<or> nb = [] then 0
         else sum_list (map (\<lambda>tokenA. Max (jaroWinkler tokenA ` set nb)) na) / of_nat (length na))"

section \<open>Ranked search\<close>

definition Math_round :: "rat \<Rightarrow> int" where
  "Math_round x = \<lfloor>x + 1 / 2\<rfloor>"

fun startsWith :: "jsstring \<Rightarrow> jsstring \<Rightarrow> bool" where
  "startsWith s [] = True"
| "startsWith [] (p # ps) = False"
| "startsWith (c # cs) (p # ps) = (c = p \<and> startsWith cs ps)"

fun includes_str :: "jsstring \<Rightarrow> jsstring \<Rightarrow> bool" where
  "includes_str [] sub = (sub = [])"
| "includes_str (c # cs) sub = (startsWith (c # cs) sub \<or> includes_str cs sub)"

text \<open>\<open>x ? x.toString().trim() : ''\<close> and \<open>x || ''\<close>.\<close>

fun field_text :: "unicode \<Rightarrow> jsstring option \<Rightarrow> jsstring" where
  "field_text U None = []"
| "field_text U (Some s) = (if s = [] then [] else trim U s)"

fun or_empty :: "jsstring option \<Rightarrow> jsstring" where
  "or_empty None = []"
| "or_empty (Some s) = s"

text \<open>
  \<open>nameTokens[0] && nameTokens[0].startsWith(queryTokens[0])\<close> under
  \<open>queryTokens.length > 0\<close>, and the loop that sets \<open>allPrefix\<close>.
\<close>

fun first_token_starts :: "jsstring list \<Rightarrow> jsstring list \<Rightarrow> bool" where
  "first_token_starts (q # qs) (n # ns) = (n \<noteq> [] \<and> startsWith n q)"
| "first_token_starts _ _ = False"

fun allPrefix :: "jsstring list \<Rightarrow> jsstring list \<Rightarrow> bool" where
  "allPrefix [] nameTokens = True"
| "allPrefix (q # qs) [] = False"
| "allPrefix (q # qs) (n # ns) = (if n = [] \<or> \<not> startsWith n q then False else allPrefix qs ns)"

definition combined_similarity :: "unicode \<Rightarrow> jsstring \<Rightarrow> jsstring \<Rightarrow> rat" where
  "combined_similarity U normName normQuery =
     max (tokenSimilarity U normName normQuery) (calculateSimilarity normName normQuery)"

subsection \<open>Scoring one record\<close>

definition name_score :: "unicode \<Rightarrow> jsstring \<Rightarrow> jsstring \<Rightarrow> int \<times> string list" where
  "name_score U normQuery normName =
     (let queryTokens = tokens normQuery; nameTokens = tokens normName
      in if normName \<noteq> [] \<and> normName = normQuery then (350, [''exact_name''])
         else if startsWith normName normQuery
                 \<or> (length queryTokens > 0 \<and> first_token_starts queryTokens nameTokens)
              then (220, [''name_start''])
         else if length queryTokens > 0 \<and> allPrefix queryTokens nameTokens
              then (200, [''tokens_prefix''])
         else if includes_str normName normQuery then (90, [''name_contains''])
         else
           let combined = combined_similarity U normName normQuery
           in if combined > 70 / 100 then (Math_round (80 * combined), [''fuzzy_name''])
              else (0, []))"

definition department_score :: "unicode \<Rightarrow> jsstring \<Rightarrow> jsstring \<Rightarrow> int \<times> string list" where
  "department_score U searchTerm dept =
     (if dept \<noteq> [] \<and> toLowerCase U dept = searchTerm then (100, [''exact_department''])
      else if dept \<noteq> [] \<and> includes_str (toLowerCase U dept) searchTerm then (60, [''department''])
      else (0, []))"

definition office_score :: "unicode \<Rightarrow> jsstring \<Rightarrow> jsstring \<Rightarrow> int \<times> string list" where
  "office_score U searchTerm office =
     (if office \<noteq> [] \<and> toLowerCase U office = searchTerm then (80, [''exact_office''])
      else if office \<noteq> [] \<and> includes_str (toLowerCase U office) searchTerm then (30, [''office''])
      else (0, []))"

definition school_score :: "unicode \<Rightarrow> jsstring \<Rightarrow> jsstring \<Rightarrow> int \<times> string list" where
  "school_score U searchTerm school =
     (if school \<noteq> [] \<and> includes_str (toLowerCase U school) searchTerm then (25, [''school''])
      else (0, []))"

definition email_score :: "unicode \<Rightarrow> jsstring \<Rightarrow> jsstring \<Rightarrow> int \<times> string list" where
  "email_score U searchTerm email =
     (if email \<noteq> [] \<and> includes_str (toLowerCase U email) searchTerm then (10, [''email''])
      else (0, []))"

text \<open>The same cascade in \<open>searchClubs\<close>, with its own weights.\<close>

definition club_name_score :: "unicode \<Rightarrow> jsstring \<Rightarrow> jsstring \<Rightarrow> int \<times> string list" where
  "club_name_score U normQuery normClubName =
     (let queryTokens = tokens normQuery; clubNameTokens = tokens normClubName
      in if normClubName = normQuery then (300, [''exact_name''])
         else if startsWith normClubName normQuery
                 \<or> (length queryTokens > 0 \<and> first_token_starts queryTokens clubNameTokens)
              then (180, [''name_start''])
         else if allPrefix queryTokens clubNameTokens \<and> length queryTokens > 0
              then (160, [''tokens_prefix''])
         else if includes_str normClubName normQuery then (80, [''name_contains''])
         else
           let combined = combined_similarity U normClubName normQuery
           in if combined > 70 / 100 then (Math_round (70 * combined), [''fuzzy_name''])
              else (0, []))"

definition type_score :: "unicode \<Rightarrow> jsstring \<Rightarrow> jsstring \<Rightarrow> int \<times> string list" where
  "type_score U searchTerm clubType =
     (if clubType = searchTerm then (80, [''exact_type''])
      else if includes_str clubType searchTerm then (50, [''type''])
      else (0, []))"

definition description_score :: "unicode \<Rightarrow> jsstring \<Rightarrow> jsstring option \<Rightarrow> int \<times> string list" where
  "description_score U searchTerm description =
     (if or_empty description \<noteq> [] \<and> includes_str (toLowerCase U (or_empty description)) searchTerm
      then (30, [''description''])
      else (0, []))"

text \<open>
  A record of \<open>doctors.json\<close>. A field is absent (\<open>None\<close>) or holds a string; JSON values
  of other types are outside the model.
\<close>

record doctor =
  name :: "jsstring option"
  department :: "jsstring option"
  office :: "jsstring option"
  school :: "jsstring option"
  email :: "jsstring option"
  office_hours :: "(jsstring \<times> jsstring) list"

text \<open>A record of \<open>htuClubs.json\<close>; the fields are the five keys of the file, in order.\<close>

record club =
  club_team :: "jsstring option"
  name_of_it :: "jsstring option"
  the_email :: "jsstring option"
  instagram :: "jsstring option"
  about :: "jsstring option"

text \<open>The entries pushed to \<open>results\<close>: \<open>{ doctor, score, matchedFields, normName }\<close>.\<close>

record 'r scored =
  item :: 'r
  score :: int
  matchedFields :: "string list"
  normName :: jsstring

definition score_doctor :: "unicode \<Rightarrow> jsstring \<Rightarrow> jsstring \<Rightarrow> doctor \<Rightarrow> doctor scored" where
  "score_doctor U searchTerm normQuery d =
     (let normName = normalize_text U (Str (field_text U (name d)));
          n = name_score U normQuery normName;
          dp = department_score U searchTerm (field_text U (department d));
          off = office_score U searchTerm (field_text U (office d));
          sc = school_score U searchTerm (field_text U (school d));
          em = email_score U searchTerm (field_text U (email d))
      in \<lparr> item = d,
           score = fst n + fst dp + fst off + fst sc + fst em,
           matchedFields = snd n @ snd dp @ snd off @ snd sc @ snd em,
           normName = normName \<rparr>)"

subsection \<open>Deduplication, order and truncation\<close>

text \<open>
  \<open>bestByName\<close> is a JavaScript \<open>Map\<close>: \<open>set\<close> on a key that is present replaces the value
  where it stands, \<open>set\<close> on a new key appends, and \<open>values()\<close> iterates in that order.
\<close>

fun map_set :: "('k \<times> 'v) list \<Rightarrow> 'k \<Rightarrow> 'v \<Rightarrow> ('k \<times> 'v) list" where
  "map_set [] k v = [(k, v)]"
| "map_set ((k', v') # m) k v = (if k' = k then (k, v) # m else (k', v') # map_set m k v)"

definition best_step ::
  "('r scored \<Rightarrow> jsstring) \<Rightarrow> 'r scored \<Rightarrow> (jsstring \<times> 'r scored) list \<Rightarrow> (jsstring \<times> 'r scored) list" where
  "best_step key r bestByName =
     (case map_of bestByName (key r) of
        None \<Rightarrow> map_set bestByName (key r) r
      | Some prev \<Rightarrow> if score r > score prev then map_set bestByName (key r) r else bestByName)"

text \<open>\<open>xs.slice(0, end)\<close>: a negative \<open>end\<close> counts from the end of the array.\<close>

definition slice0 :: "'a list \<Rightarrow> int \<Rightarrow> 'a list" where
  "slice0 xs e = (if e < 0 then take (nat (int (length xs) + e)) xs else take (nat e) xs)"

text \<open>
  The tail shared, word for word, by \<open>search\<close> and \<open>searchClubs\<close>: deduplicate through
  the map, sort by \<open>b.score - a.score\<close> (\<open>Array.prototype.sort\<close> is stable), cut at
  \<open>config.MAX_RESULTS\<close> and return the records.
\<close>

definition ranked ::
  "('r scored \<Rightarrow> jsstring) \<Rightarrow> int \<Rightarrow> 'r scored list \<Rightarrow> 'r list" where
  "ranked key MAX_RESULTS results =
     (let bestByName = fold (best_step key) results [];
          deduped = map snd bestByName
      in map item (slice0 (sort_key (\<lambda>r. - score r) deduped) MAX_RESULTS))"

definition doctor_key :: "unicode \<Rightarrow> doctor scored \<Rightarrow> jsstring" where
  "doctor_key U r =
     (if normName r \<noteq> [] then normName r
      else normalize_text U (Str (or_empty (name (item r)))))"

text \<open>
  The body of \<open>this.doctors.forEach\<close> for one doctor, with the constants \<open>rawQuery\<close>,
  \<open>searchTerm\<close> and \<open>normQuery\<close> the function computes before the loop.
\<close>

definition scored_doctor :: "unicode \<Rightarrow> jsstring \<Rightarrow> doctor \<Rightarrow> doctor scored" where
  "scored_doctor U query d =
     (let rawQuery = trim U query;
          searchTerm = toLowerCase U rawQuery;
          normQuery = normalize_text U (Str searchTerm)
      in score_doctor U searchTerm normQuery d)"

definition doctor_results :: "unicode \<Rightarrow> doctor list \<Rightarrow> jsstring \<Rightarrow> doctor scored list" where
  "doctor_results U doctors query =
     filter (\<lambda>r. score r > 0) (map (scored_doctor U query) doctors)"

text \<open>
  \<open>search(query)\<close> over \<open>this.doctors\<close>, with \<open>config.MAX_RESULTS\<close> as a parameter. The
  query is a string; \<open>null\<close> and \<open>undefined\<close> take the branch of the empty string at
  \<open>!query\<close>.
\<close>

definition search :: "unicode \<Rightarrow> int \<Rightarrow> doctor list \<Rightarrow> jsstring \<Rightarrow> doctor list" where
  "search U MAX_RESULTS doctors query =
     (if query = [] \<or> length (trim U query) < 2 then []
      else ranked (doctor_key U) MAX_RESULTS (doctor_results U doctors query))"

subsection \<open>\<open>searchClubs\<close> and \<open>searchClubsAll\<close>\<close>

definition score_club :: "unicode \<Rightarrow> jsstring \<Rightarrow> jsstring \<Rightarrow> club \<Rightarrow> club scored" where
  "score_club U searchTerm normQuery c =
     (let clubNameRaw = or_empty (name_of_it c);
          normClubName = normalize_text U (Str clubNameRaw);
          n = club_name_score U normQuery normClubName;
          clubType = (if or_empty (club_team c) \<noteq> [] then toLowerCase U (or_empty (club_team c)) else []);
          ty = type_score U searchTerm clubType;
          ds = description_score U searchTerm (about c)
      in \<lparr> item = c,
           score = fst n + fst ty + fst ds,
           matchedFields = snd n @ snd ty @ snd ds,
           normName = normClubName \<rparr>)"

definition club_key :: "unicode \<Rightarrow> club scored \<Rightarrow> jsstring" where
  "club_key U r =
     (if normName r \<noteq> [] then normName r
      else normalize_text U (Str (or_empty (name_of_it (item r)))))"

definition scored_club :: "unicode \<Rightarrow> jsstring \<Rightarrow> club \<Rightarrow> club scored" where
  "scored_club U query c =
     (let rawQuery = trim U query;
          searchTerm = toLowerCase U rawQuery;
          normQuery = normalize_text U (Str searchTerm)
      in score_club U searchTerm normQuery c)"

definition club_results :: "unicode \<Rightarrow> club list \<Rightarrow> jsstring \<Rightarrow> club scored list" where
  "club_results U clubs query =
     filter (\<lambda>r. score r > 0) (map (scored_club U query) clubs)"

definition searchClubs :: "unicode \<Rightarrow> int \<Rightarrow> club list \<Rightarrow> jsstring \<Rightarrow> club list" where
  "searchClubs U MAX_RESULTS clubs query =
     (if query = [] \<or> length (trim U query) < 2 then []
      else ranked (club_key U) MAX_RESULTS (club_results U clubs query))"

definition searchClubsAll :: "unicode \<Rightarrow> int \<Rightarrow> club list \<Rightarrow> jsstring \<Rightarrow> club list" where
  "searchClubsAll U MAX_RESULTS clubs query = searchClubs U MAX_RESULTS clubs query"

subsection \<open>Score and canonical key of a record\<close>

text \<open>
  The score a record gets for a query, and the key under which \<open>bestByName\<close> files it:
  \<open>r.normName || this.normalize(r.doctor.name || '')\<close>. The key depends on the record
  only.
\<close>

definition doctor_score :: "unicode \<Rightarrow> jsstring \<Rightarrow> doctor \<Rightarrow> int" where
  "doctor_score U query d = score (scored_doctor U query d)"

definition club_score :: "unicode \<Rightarrow> jsstring \<Rightarrow> club \<Rightarrow> int" where
  "club_score U query c = score (scored_club U query c)"


definition doctor_canonical_key :: "unicode \<Rightarrow> doctor \<Rightarrow> jsstring" where
  "doctor_canonical_key U d =
     (if normalize_text U (Str (field_text U (name d))) \<noteq> []
      then normalize_text U (Str (field_text U (name d)))
      else normalize_text U (Str (or_empty (name d))))"

definition club_canonical_key :: "unicode \<Rightarrow> club \<Rightarrow> jsstring" where
  "club_canonical_key U c =
     (if normalize_text U (Str (or_empty (name_of_it c))) \<noteq> []
      then normalize_text U (Str (or_empty (name_of_it c)))
      else normalize_text U (Str (or_empty (name_of_it c))))"

subsection \<open>Discovery order\<close>

text \<open>
  The position at which a value first occurs in a list (the length of the list when it
  does not occur), and with it the position in \<open>results\<close> at which a canonical key is
  first met.
\<close>

fun first_index :: "'a list \<Rightarrow> 'a \<Rightarrow> nat" where
  "first_index [] x = 0"
| "first_index (y # ys) x = (if y = x then 0 else Suc (first_index ys x))"

definition doctor_discovery :: "unicode \<Rightarrow> doctor list \<Rightarrow> jsstring \<Rightarrow> doctor \<Rightarrow> nat" where
  "doctor_discovery U doctors query d =
     first_index (map (doctor_key U) (doctor_results U doctors query)) (doctor_canonical_key U d)"

definition club_discovery :: "unicode \<Rightarrow> club list \<Rightarrow> jsstring \<Rightarrow> club \<Rightarrow> nat" where
  "club_discovery U clubs query c =
     first_index (map (club_key U) (club_results U clubs query)) (club_canonical_key U c)"

section \<open>The intent extractor\<close>

subsection \<open>Regular expressions\<close>

text \<open>
  The patterns of \<open>parseNaturalLanguageQuery\<close> use literals, \<open>.\<close>, \<open>\s\<close>, the class
  \<open>[?.,!]\<close>, sequence, alternation, \<open>?\<close>, \<open>*\<close> and \<open>+\<close> on a single character class,
  and capturing groups, numbered by their opening parenthesis.
\<close>

datatype cls = Lit nat | AnyChar | Space | OneOf "nat list"

datatype regex =
    Eps
  | Atom cls
  | Seq regex regex
  | Alt regex regex
  | Opt regex
  | Star cls
  | Plus cls
  | Group nat regex

fun seqs :: "regex list \<Rightarrow> regex" where
  "seqs [] = Eps"
| "seqs [r] = r"
| "seqs (r # rs) = Seq r (seqs rs)"

fun alts :: "regex list \<Rightarrow> regex" where
  "alts [] = Eps"
| "alts [r] = r"
| "alts (r # rs) = Alt r (alts rs)"

definition lit :: "string \<Rightarrow> regex" where
  "lit s = seqs (map (\<lambda>c. Atom (Lit (of_char c))) s)"

fun ngroups :: "regex \<Rightarrow> nat" where
  "ngroups (Seq a b) = ngroups a + ngroups b"
| "ngroups (Alt a b) = ngroups a + ngroups b"
| "ngroups (Opt a) = ngroups a"
| "ngroups (Group n a) = Suc (ngroups a)"
| "ngroups _ = 0"

text \<open>\<open>.\<close> matches every code unit but the four line terminators.\<close>

fun accepts :: "unicode \<Rightarrow> cls \<Rightarrow> nat \<Rightarrow> bool" where
  "accepts U (Lit a) c = (c = a)"
| "accepts U AnyChar c = (c \<notin> set [0x0A, 0x0D, 0x2028, 0x2029])"
| "accepts U Space c = WhiteSpace U c"
| "accepts U (OneOf cs) c = (c \<in> set cs)"

text \<open>
  A backtracking matcher in the order of the ECMAScript semantics: the left alternative
  first, quantifiers greedy. The continuation is a list of tasks; \<open>Close n s0\<close> ends
  group \<open>n\<close>, opened when the input left was \<open>s0\<close>. The result is the captures and the
  input left after the match.
\<close>

datatype task = Match regex | Close nat jsstring

type_synonym captures = "nat \<Rightarrow> jsstring option"

fun rsize :: "regex \<Rightarrow> nat" where
  "rsize Eps = 1"
| "rsize (Atom c) = 1"
| "rsize (Seq a b) = Suc (rsize a + rsize b)"
| "rsize (Alt a b) = Suc (rsize a + rsize b)"
| "rsize (Opt a) = Suc (rsize a)"
| "rsize (Star c) = 1"
| "rsize (Plus c) = 2"
| "rsize (Group n a) = Suc (Suc (rsize a))"

fun tsize :: "task \<Rightarrow> nat" where
  "tsize (Match r) = rsize r"
| "tsize (Close n s0) = 1"

function run :: "unicode \<Rightarrow> task list \<Rightarrow> jsstring \<Rightarrow> captures \<Rightarrow> (captures \<times> jsstring) option" where
  "run U [] s caps = Some (caps, s)"
| "run U (Close n s0 # k) s caps = run U k s (caps(n \<mapsto> take (length s0 - length s) s0))"
| "run U (Match Eps # k) s caps = run U k s caps"
| "run U (Match (Atom c) # k) s caps =
     (case s of [] \<Rightarrow> None | x # xs \<Rightarrow> if accepts U c x then run U k xs caps else None)"
| "run U (Match (Seq a b) # k) s caps = run U (Match a # Match b # k) s caps"
| "run U (Match (Alt a b) # k) s caps =
     (case run U (Match a # k) s caps of Some r \<Rightarrow> Some r | None \<Rightarrow> run U (Match b # k) s caps)"
| "run U (Match (Opt a) # k) s caps =
     (case run U (Match a # k) s caps of Some r \<Rightarrow> Some r | None \<Rightarrow> run U k s caps)"
| "run U (Match (Star c) # k) s caps =
     (case s of
        [] \<Rightarrow> run U k s caps
      | x # xs \<Rightarrow>
          if accepts U c x then
            (case run U (Match (Star c) # k) xs caps of
               Some r \<Rightarrow> Some r
             | None \<Rightarrow> run U k s caps)
          else run U k s caps)"
| "run U (Match (Plus c) # k) s caps =
     (case s of [] \<Rightarrow> None
      | x # xs \<Rightarrow> if accepts U c x then run U (Match (Star c) # k) xs caps else None)"
| "run U (Match (Group n a) # k) s caps = run U (Match a # Close n s # k) s caps"
  by pat_completeness auto
termination
  by (relation "measures [\<lambda>(U, k, s, caps). sum_list (map tsize k), \<lambda>(U, k, s, caps). length s]")
     auto

text \<open>
  \<open>s.match(pattern)\<close> without the \<open>g\<close> flag: the match at the leftmost position that has
  one. Only the groups are kept; \<open>match.length\<close> is the number of groups plus one.
\<close>

fun exec :: "unicode \<Rightarrow> regex \<Rightarrow> jsstring \<Rightarrow> captures option" where
  "exec U r [] = map_option fst (run U [Match r] [] Map.empty)"
| "exec U r (c # cs) =
     (case run U [Match r] (c # cs) Map.empty of
        Some m \<Rightarrow> Some (fst m)
      | None \<Rightarrow> exec U r cs)"

subsection \<open>\<open>parseNaturalLanguageQuery\<close>\<close>

datatype intent =
  OfficeHours | ContactInfo | OfficeLocation | Department | WhoIs | Admission | Registrar | Dean
  | Question

record intent_result =
  intent :: intent
  entity :: jsstring
  confidence :: rat
  originalQuery :: jsstring

definition hours_words :: regex where
  "hours_words = alts [Seq (lit ''office hour'') (Opt (lit ''s'')),
                       Seq (lit ''hour'') (Opt (lit ''s'')), lit ''schedule'']"

definition of_for :: regex where
  "of_for = alts [lit ''of'', lit ''for'']"

definition contact_words :: regex where
  "contact_words = alts [lit ''email'', lit ''contact'', lit ''phone'']"

definition location_words :: regex where
  "location_words = alts [lit ''office'', lit ''room'', lit ''location'']"

definition department_words :: regex where
  "department_words = alts [lit ''department'', lit ''school'', lit ''faculty'']"

definition who_where_what :: regex where
  "who_where_what = alts [Seq (lit ''who i'') (Opt (lit ''s'')), Seq (lit ''where i'') (Opt (lit ''s'')),
                          Seq (lit ''what i'') (Opt (lit ''s''))]"

definition admission_words :: regex where
  "admission_words = alts [lit ''admission'', Seq (lit ''admission'') (Opt (lit ''s'')),
                           lit ''enrollment'']"

definition registrar_words :: regex where
  "registrar_words = alts [lit ''registrar'', lit ''registration'',
                           Seq (lit ''academic record'') (Opt (lit ''s''))]"

definition any_text :: regex where
  "any_text = Plus AnyChar"

definition officeHours_patterns :: "regex list" where
  "officeHours_patterns =
     [seqs [alts [Seq (lit ''what ar'') (Opt (lit ''e'')), Seq (lit ''when ar'') (Opt (lit ''e'')),
                  lit ''tell me about''],
            Star AnyChar, Group 1 hours_words, Star AnyChar, Group 2 of_for, Plus Space,
            Group 3 any_text],
      seqs [hours_words, Star AnyChar, Group 1 of_for, Plus Space, Group 2 any_text],
      seqs [lit ''when '',
            alts [lit ''is'', lit ''does'',
                  Seq (lit ''can i '') (alts [lit ''find'', lit ''see'', lit ''meet''])],
            Plus Space, Group 1 any_text, Star Space,
            Opt (alts [lit ''available'', lit ''in office'', lit ''at office''])],
      seqs [Group 1 any_text, Plus Space, hours_words]]"

definition contactInfo_patterns :: "regex list" where
  "contactInfo_patterns =
     [seqs [alts [Seq (lit ''what i'') (Opt (lit ''s'')), lit ''give me'', lit ''tell me''],
            Star AnyChar, Group 1 contact_words, Star AnyChar, Group 2 of_for, Plus Space,
            Group 3 any_text],
      seqs [contact_words, Star AnyChar, Group 1 of_for, Plus Space, Group 2 any_text],
      seqs [lit ''how '', alts [lit ''can i'', lit ''do i''], lit '' '',
            alts [lit ''contact'', lit ''reach'', lit ''email''], Plus Space, Group 1 any_text],
      seqs [Group 1 any_text, Plus Space, contact_words]]"

definition officeLocation_patterns :: "regex list" where
  "officeLocation_patterns =
     [seqs [alts [Seq (lit ''where i'') (Opt (lit ''s'')), Seq (lit ''what i'') (Opt (lit ''s''))],
            Star AnyChar, Group 1 location_words, Star AnyChar, Group 2 of_for, Plus Space,
            Group 3 any_text],
      seqs [location_words, Star AnyChar, Group 1 of_for, Plus Space, Group 2 any_text],
      seqs [lit ''where '', alts [lit ''can i find'', lit ''is''], Plus Space, Group 1 any_text,
            Opt (alts [Seq (Plus Space) (lit ''located''), Seq (Plus Space) (lit ''office'')])],
      seqs [Group 1 any_text, Plus Space, location_words]]"

definition department_patterns :: "regex list" where
  "department_patterns =
     [seqs [alts [lit ''what'', lit ''which''], Plus Space, department_words, Star AnyChar,
            Group 1 (alts [lit ''is'', lit ''does'']), Plus Space, Group 2 any_text, Plus Space,
            alts [lit ''in'', lit ''work'', lit ''belong'', lit ''teach'']],
      seqs [Group 1 any_text, Plus Space, department_words],
      seqs [department_words, Star AnyChar, Group 1 of_for, Plus Space, Group 2 any_text]]"

definition whoIs_patterns :: "regex list" where
  "whoIs_patterns =
     [seqs [lit ''who is'', Plus Space, Group 1 any_text],
      seqs [lit ''tell me about'', Plus Space, Group 1 any_text],
      seqs [alts [lit ''what'', lit ''who''], Plus Space, alts [lit ''is'', lit ''are''],
            Plus Space, Group 1 any_text]]"

definition admission_patterns :: "regex list" where
  "admission_patterns =
     [seqs [who_where_what, Star AnyChar, Group 1 admission_words, Star AnyChar,
            Opt (Group 2 (alts [lit ''office'', lit ''department'', lit ''contact'']))],
      seqs [admission_words, Star AnyChar,
            Group 1 (alts [lit ''office'', lit ''department'', lit ''contact'', lit ''info'',
                           lit ''information''])],
      seqs [lit ''how '', alts [lit ''can i'', lit ''do i''], Star AnyChar,
            Group 1 (alts [lit ''apply'', lit ''enroll'', lit ''admit'', lit ''admission''])]]"

definition registrar_patterns :: "regex list" where
  "registrar_patterns =
     [seqs [who_where_what, Star AnyChar, Group 1 registrar_words, Star AnyChar,
            Opt (Group 2 (alts [lit ''office'', lit ''department'', lit ''contact'']))],
      seqs [registrar_words, Star AnyChar,
            Group 1 (alts [lit ''office'', lit ''department'', lit ''contact'', lit ''info''])]]"

definition dean_patterns :: "regex list" where
  "dean_patterns =
     [seqs [Seq (lit ''who i'') (Opt (lit ''s'')), Star AnyChar,
            Group 1 (alts [lit ''dean'', lit ''head'']), Star AnyChar, Opt (Group 2 of_for),
            Star Space, Opt (Group 3 any_text)],
      seqs [Group 1 any_text, Plus Space, alts [lit ''dean'', lit ''head'']]]"

text \<open>
  \<open>Object.entries(patterns)\<close> lists the intents in the order the object literal declares
  them; the two nested loops visit the pairs below from left to right.
\<close>

definition patterns :: "(intent \<times> regex) list" where
  "patterns =
     map (Pair OfficeHours) officeHours_patterns @
     map (Pair ContactInfo) contactInfo_patterns @
     map (Pair OfficeLocation) officeLocation_patterns @
     map (Pair Department) department_patterns @
     map (Pair WhoIs) whoIs_patterns @
     map (Pair Admission) admission_patterns @
     map (Pair Registrar) registrar_patterns @
     map (Pair Dean) dean_patterns"

fun or_else :: "jsstring option \<Rightarrow> jsstring \<Rightarrow> jsstring" where
  "or_else None d = d"
| "or_else (Some s) d = (if s = [] then d else s)"

text \<open>
  The entity of a match: \<open>match[match.length - 1] || match[1] || ''\<close>, trimmed, with every
  \<open>?\<close>, \<open>.\<close>, \<open>,\<close> and \<open>!\<close> removed.
\<close>

definition extract_entity :: "unicode \<Rightarrow> regex \<Rightarrow> captures \<Rightarrow> jsstring" where
  "extract_entity U pattern m =
     (if Suc (ngroups pattern) \<ge> 2
      then filter (\<lambda>c. c \<notin> set [63, 46, 44, 33])
             (trim U (or_else (m (ngroups pattern)) (or_else (m 1) [])))
      else [])"

fun try_patterns ::
  "unicode \<Rightarrow> (intent \<times> regex) list \<Rightarrow> jsstring \<Rightarrow> jsstring \<Rightarrow> intent_result option" where
  "try_patterns U [] normalizedQuery query = None"
| "try_patterns U ((i, pattern) # ps) normalizedQuery query =
     (case exec U pattern normalizedQuery of
        Some m \<Rightarrow>
          Some \<lparr> intent = i, entity = extract_entity U pattern m, confidence = 8 / 10,
                 originalQuery = query \<rparr>
      | None \<Rightarrow> try_patterns U ps normalizedQuery query)"

text \<open>
  \<open>normalizedQuery.replace(/^(what|who|where|when|how)\s+(is|are|can|do|does)\s*/, '')\<close>:
  the pattern is anchored, so the text left after a match at position 0 is the result.
\<close>

definition question_prefix :: regex where
  "question_prefix =
     seqs [Group 1 (alts [lit ''what'', lit ''who'', lit ''where'', lit ''when'', lit ''how'']),
           Plus Space,
           Group 2 (alts [lit ''is'', lit ''are'', lit ''can'', lit ''do'', lit ''does'']),
           Star Space]"

definition strip_question :: "unicode \<Rightarrow> jsstring \<Rightarrow> jsstring" where
  "strip_question U normalizedQuery =
     (case run U [Match question_prefix] normalizedQuery Map.empty of
        Some m \<Rightarrow> snd m
      | None \<Rightarrow> normalizedQuery)"

definition parse_text :: "unicode \<Rightarrow> jsstring \<Rightarrow> intent_result option" where
  "parse_text U query =
     (let normalizedQuery = trim U (toLowerCase U query)
      in case try_patterns U patterns normalizedQuery query of
           Some r \<Rightarrow> Some r
         | None \<Rightarrow>
             if includes_str normalizedQuery (str ''what'') \<or> includes_str normalizedQuery (str ''who'')
                \<or> includes_str normalizedQuery (str ''where'') \<or> includes_str normalizedQuery (str ''when'')
                \<or> includes_str normalizedQuery (str ''how'')
             then Some \<lparr> intent = Question, entity = strip_question U normalizedQuery,
                         confidence = 6 / 10, originalQuery = query \<rparr>
             else None)"

text \<open>
  \<open>query.toLowerCase()\<close> is the first thing the function does: on \<open>null\<close> and \<open>undefined\<close>
  the property read throws a \<open>TypeError\<close>, on a number or a boolean the call of the
  missing method does.
\<close>

fun parseNaturalLanguageQuery :: "unicode \<Rightarrow> jsval \<Rightarrow> error + intent_result option" where
  "parseNaturalLanguageQuery U (Str query) = Inr (parse_text U query)"
| "parseNaturalLanguageQuery U _ = Inl TypeError"

section \<open>Loading and reloading the record index\<close>

text \<open>
  What the loaders find at a path: nothing (\<open>existsSync\<close> is false, or \<open>readFileSync\<close>
  throws for a missing file), a file that cannot be read or parsed (\<open>readFileSync\<close> or
  \<open>JSON.parse\<close> throws), or a file that parses to a value.
\<close>

datatype 'a file_state = Missing | Unreadable | Holds 'a

text \<open>
  \<open>doctors.json\<close> may parse to anything; \<open>extractDepartments\<close> calls \<open>forEach\<close> on it,
  which only an array has.
\<close>

datatype doctors_data = DoctorList "doctor list" | NotAnArray

type_synonym name_system = "(jsstring \<times> jsstring) list"

record files =
  doctors_candidates :: "doctors_data file_state list"
  clubs_file :: "club list file_state"
  name_system_file :: "name_system file_state"

record assistant =
  doctors :: doctors_data
  departments :: "jsstring list"
  clubs :: "club list"
  nameSystem :: name_system

text \<open>
  \<open>loadDoctors\<close>: the loop over \<open>candidatePaths\<close> returns the first file that exists and
  parses; the inner \<open>catch\<close> moves on to the next candidate; after the loop the function
  throws, and its own outer \<open>catch\<close> returns \<open>[]\<close>.
\<close>

fun first_candidate :: "doctors_data file_state list \<Rightarrow> error + doctors_data" where
  "first_candidate [] = Inl Error"
| "first_candidate (Missing # cs) = first_candidate cs"
| "first_candidate (Unreadable # cs) = first_candidate cs"
| "first_candidate (Holds v # cs) = Inr v"

definition loadDoctors :: "files \<Rightarrow> doctors_data" where
  "loadDoctors env =
     (case first_candidate (doctors_candidates env) of
        Inl e \<Rightarrow> DoctorList []
      | Inr v \<Rightarrow> v)"

text \<open>\<open>x ? x.toString().trim() : d\<close> in \<open>cleanClub\<close>.\<close>

fun clean_field :: "unicode \<Rightarrow> jsstring option \<Rightarrow> jsstring \<Rightarrow> jsstring" where
  "clean_field U None d = d"
| "clean_field U (Some s) d = (if s = [] then d else trim U s)"

fun clean_clubs :: "unicode \<Rightarrow> club list \<Rightarrow> jsstring list \<Rightarrow> club list" where
  "clean_clubs U [] seenNames = []"
| "clean_clubs U (c # cs) seenNames =
     (if or_empty (club_team c) = [] \<or> or_empty (name_of_it c) = [] then clean_clubs U cs seenNames
      else
        let clubName = collapse_ws U (trim U (or_empty (name_of_it c)))
        in if clubName \<in> set seenNames then clean_clubs U cs seenNames
           else
             \<lparr> club_team = Some (clean_field U (club_team c) (str ''N/A'')),
               name_of_it = Some clubName,
               the_email = Some (clean_field U (the_email c) (str ''N/A'')),
               instagram = Some (clean_field U (instagram c) (str ''N/A'')),
               about = Some (clean_field U (about c) []) \<rparr>
             # clean_clubs U cs (clubName # seenNames))"

text \<open>
  \<open>loadClubs\<close> and \<open>loadNameSystem\<close> catch every error and return \<open>[]\<close> and \<open>{}\<close>; for
  the clubs a file that parses to something other than an array of records ends in the
  same \<open>catch\<close> and counts as unreadable here.
\<close>

definition loadClubs :: "unicode \<Rightarrow> files \<Rightarrow> club list" where
  "loadClubs U env = (case clubs_file env of Holds rawClubs \<Rightarrow> clean_clubs U rawClubs [] | _ \<Rightarrow> [])"

definition loadNameSystem :: "files \<Rightarrow> name_system" where
  "loadNameSystem env = (case name_system_file env of Holds v \<Rightarrow> v | _ \<Rightarrow> [])"

text \<open>
  \<open>extractDepartments\<close>: the trimmed departments as a set, then \<open>sort()\<close>, which compares
  code units.
\<close>

fun str_le :: "jsstring \<Rightarrow> jsstring \<Rightarrow> bool" where
  "str_le [] t = True"
| "str_le (c # cs) [] = False"
| "str_le (c # cs) (d # ds) = (c < d \<or> (c = d \<and> str_le cs ds))"

fun insert_sorted :: "jsstring \<Rightarrow> jsstring list \<Rightarrow> jsstring list" where
  "insert_sorted x [] = [x]"
| "insert_sorted x (y # ys) = (if str_le x y then x # y # ys else y # insert_sorted x ys)"

fun departments_of :: "unicode \<Rightarrow> doctor list \<Rightarrow> jsstring list" where
  "departments_of U [] = []"
| "departments_of U (d # ds) =
     (if or_empty (department d) \<noteq> [] then trim U (or_empty (department d)) # departments_of U ds
      else departments_of U ds)"

definition extractDepartments :: "unicode \<Rightarrow> assistant \<Rightarrow> error + jsstring list" where
  "extractDepartments U this =
     (case doctors this of
        NotAnArray \<Rightarrow> Inl TypeError
      | DoctorList ds \<Rightarrow> Inr (foldr insert_sorted (remdups (departments_of U ds)) []))"

fun data_length :: "doctors_data \<Rightarrow> nat" where
  "data_length (DoctorList ds) = length ds"
| "data_length NotAnArray = 0"

text \<open>
  \<open>reload()\<close>: \<open>{ ok: true, doctors, clubs }\<close> or, from the \<open>catch\<close>, \<open>{ ok: false, error }\<close>.
  Each assignment to a field of \<open>this\<close> takes effect when it is made.
\<close>

datatype reload_result = ReloadOk nat nat | ReloadFailed error

fun ok :: "reload_result \<Rightarrow> bool" where
  "ok (ReloadOk d c) = True"
| "ok (ReloadFailed e) = False"

definition reload :: "unicode \<Rightarrow> files \<Rightarrow> assistant \<Rightarrow> reload_result \<times> assistant" where
  "reload U env this =
     (let this1 = this\<lparr>doctors := loadDoctors env\<rparr>
      in case extractDepartments U this1 of
           Inl e \<Rightarrow> (ReloadFailed e, this1)
         | Inr deps \<Rightarrow>
             let this2 = this1\<lparr>departments := deps\<rparr>;
                 this3 = this2\<lparr>clubs := loadClubs U env\<rparr>;
                 this4 = this3\<lparr>nameSystem := loadNameSystem env\<rparr>
             in (ReloadOk (data_length (doctors this4)) (length (clubs this4)), this4))"

section \<open>Example data\<close>


definition omar :: doctor where
  "omar = \<lparr> name = Some (str ''Omar''), department = Some (str ''Civil''),
            office = None, school = None, email = None, office_hours = [] \<rparr>"



definition ann_engineering :: doctor where
  "ann_engineering = \<lparr> name = Some (str ''Ann''), department = Some (str ''Civil Eng''),
                       office = None, school = None, email = None, office_hours = [] \<rparr>"

definition bob_civil :: doctor where
  "bob_civil = \<lparr> name = Some (str ''Bob''), department = Some (str ''Civil''),
                 office = None, school = None, email = None, office_hours = [] \<rparr>"

definition ann_civil :: doctor where
  "ann_civil = \<lparr> name = Some (str ''Ann''), department = Some (str ''Civil''),
                 office = None, school = None, email = None, office_hours = [] \<rparr>"

definition chess_club :: club where
  "chess_club = \<lparr> club_team = Some (str ''Club''), name_of_it = Some (str ''Chess''),
                  the_email = None, instagram = None, about = Some (str ''We play chess'') \<rparr>"

definition chess_team :: club where
  "chess_team = \<lparr> club_team = Some (str ''Volunteer team''), name_of_it = Some (str ''CHESS!''),
                  the_email = None, instagram = None, about = None \<rparr>"

definition no_files :: files where
  "no_files = \<lparr> doctors_candidates = [Missing, Unreadable, Missing], clubs_file = Missing,
                name_system_file = Missing \<rparr>"

definition loaded :: assistant where
  "loaded = \<lparr> doctors = DoctorList [omar], departments = [str ''Civil''], clubs = [chess_club],
              nameSystem = [] \<rparr>"

definition marks_out_of_order :: jsstring where
  "marks_out_of_order = [0x61, 0x363, 0x5E, 0x359]"

definition punctuated_name :: jsstring where
  "punctuated_name = str ''Al-Hussein, Dr. Omar!''"

definition office_hours_question :: jsstring where
  "office_hours_question = str ''what are the office hours of Dr. Mohammad?''"

section \<open>Normalization\<close>

lemma trimEnd_head: "\<not> WhiteSpace U c \<Longrightarrow> trimEnd U (c # cs) = c # trimEnd U cs"
  by (simp add: Let_def)

lemma trimEnd_idem: "trimEnd U (trimEnd U s) = trimEnd U s"
  by (induction s) (auto simp: Let_def)

lemma trimEnd_Cons_prefix: "trimEnd U s = d # r \<Longrightarrow> \<exists>r'. s = d # r'"
  by (cases s) (auto simp: Let_def split: if_splits)

lemma set_trimEnd: "set (trimEnd U s) \<subseteq> set s"
  by (induction s) (auto simp: Let_def)

lemma dropWhile_trimEnd:
  "s = [] \<or> \<not> WhiteSpace U (hd s) \<Longrightarrow> dropWhile (WhiteSpace U) (trimEnd U s) = trimEnd U s"
  by (cases s) (auto simp: Let_def)

lemma trim_trim: "trim U (trim U s) = trim U s"
proof -
  have "dropWhile (WhiteSpace U) s = [] \<or> \<not> WhiteSpace U (hd (dropWhile (WhiteSpace U) s))"
    by (metis hd_dropWhile)
  then show ?thesis
    by (simp add: trim_def dropWhile_trimEnd trimEnd_idem)
qed

lemma set_trim: "set (trim U s) \<subseteq> set s"
  using set_trimEnd[of U "dropWhile (WhiteSpace U) s"] set_dropWhileD[of _ "WhiteSpace U" s]
  by (auto simp: trim_def)

lemma set_collapse_ws: "set (collapse_ws U s) \<subseteq> insert 32 (set s)"
proof (induction U s rule: collapse_ws.induct)
  case (1 U)
  show ?case by simp
next
  case (2 U c cs)
  then show ?case
    using set_dropWhileD[of _ "WhiteSpace U" cs] by (auto split: if_splits)
qed

lemma collapse_ws_head:
  "s = [] \<or> \<not> WhiteSpace U (hd s) \<Longrightarrow> collapse_ws U s = [] \<or> \<not> WhiteSpace U (hd (collapse_ws U s))"
  by (cases s) auto

lemma single_spaced_collapse_ws: "single_spaced U (collapse_ws U s)"
proof (induction U s rule: collapse_ws.induct)
  case (1 U)
  show ?case by simp
next
  case (2 U c cs)
  show ?case
  proof (cases "WhiteSpace U c")
    case True
    have "dropWhile (WhiteSpace U) cs = [] \<or> \<not> WhiteSpace U (hd (dropWhile (WhiteSpace U) cs))"
      by (metis hd_dropWhile)
    from collapse_ws_head[OF this] 2(1)[OF True] True show ?thesis
      by (cases "collapse_ws U (dropWhile (WhiteSpace U) cs)") auto
  next
    case False
    with 2(2) show ?thesis by simp
  qed
qed

lemma collapse_ws_single_spaced: "single_spaced U s \<Longrightarrow> collapse_ws U s = s"
proof (induction U s rule: collapse_ws.induct)
  case (1 U)
  show ?case by simp
next
  case (2 U c cs)
  show ?case
  proof (cases "WhiteSpace U c")
    case True
    with "2.prems" have d: "dropWhile (WhiteSpace U) cs = cs" and c: "c = 32" and t: "single_spaced U cs"
      by (cases cs; simp)+
    from 2(1)[OF True] d t have "collapse_ws U (dropWhile (WhiteSpace U) cs) = cs" by simp
    with True c show ?thesis by simp
  next
    case False
    with 2 show ?thesis by simp
  qed
qed

lemma single_spaced_tail: "single_spaced U (c # cs) \<Longrightarrow> single_spaced U cs"
  by simp

lemma single_spaced_dropWhile: "single_spaced U s \<Longrightarrow> single_spaced U (dropWhile P s)"
  by (induction s) auto

lemma single_spaced_trimEnd: "single_spaced U s \<Longrightarrow> single_spaced U (trimEnd U s)"
proof (induction s)
  case Nil
  show ?case by simp
next
  case (Cons c cs)
  then have t: "single_spaced U (trimEnd U cs)" by simp
  show ?case
  proof (cases "trimEnd U cs")
    case Nil
    with Cons.prems show ?thesis by (auto simp: Let_def)
  next
    case (Cons d r)
    then obtain r' where "cs = d # r'" using trimEnd_Cons_prefix by blast
    with Cons t Cons.prems show ?thesis by (auto simp: Let_def)
  qed
qed

lemma single_spaced_trim: "single_spaced U s \<Longrightarrow> single_spaced U (trim U s)"
  by (simp add: trim_def single_spaced_trimEnd single_spaced_dropWhile)

lemma normalize_text_shape:
  assumes "\<not> Diacritic U 32" and "\<not> Punctuation U 32"
  shows "(\<forall>c \<in> set (normalize_text U x). \<not> Diacritic U c \<and> \<not> Punctuation U c)
         \<and> single_spaced U (normalize_text U x)
         \<and> trim U (normalize_text U x) = normalize_text U x"
proof (cases "falsy x \<and> x \<noteq> Num 0")
  case True
  then show ?thesis by (simp add: normalize_text_def trim_def)
next
  case False
  define M where
    "M = map (\<lambda>c. if Punctuation U c then 32 else c)
           (filter (\<lambda>c. \<not> Diacritic U c) (nfd U (trim U (toLowerCase U (String_of x)))))"
  define T where "T = trim U (collapse_ws U M)"
  have y: "normalize_text U x = T"
    using False by (auto simp: normalize_text_def Let_def T_def M_def)
  have m: "\<forall>c \<in> set M. \<not> Diacritic U c \<and> \<not> Punctuation U c"
    using assms by (auto simp: M_def)
  have "set T \<subseteq> insert 32 (set M)"
    using set_trim[of U "collapse_ws U M"] set_collapse_ws[of U M] by (auto simp: T_def)
  with m assms have "\<forall>c \<in> set T. \<not> Diacritic U c \<and> \<not> Punctuation U c"
    by auto
  moreover have "single_spaced U T"
    unfolding T_def by (intro single_spaced_trim single_spaced_collapse_ws)
  moreover have "trim U T = T"
    unfolding T_def by (rule trim_trim)
  ultimately show ?thesis by (simp only: y) 
qed

lemma normalize_text_fixed:
  assumes "\<forall>c \<in> set y. \<not> Diacritic U c \<and> \<not> Punctuation U c"
    and "single_spaced U y" and "trim U y = y"
    and "toLowerCase U y = y" and "nfd U y = y"
  shows "normalize_text U (Str y) = y"
proof (cases "y = []")
  case True
  then show ?thesis by (simp add: normalize_text_def)
next
  case False
  have f: "filter (\<lambda>c. \<not> Diacritic U c) y = y"
    using assms(1) by (simp add: filter_id_conv)
  have m: "map (\<lambda>c. if Punctuation U c then 32 else c) y = y"
    using assms(1) by (simp add: map_idI)
  show ?thesis
    using False by (simp add: normalize_text_def Let_def assms(3,4,5) f m
        collapse_ws_single_spaced[OF assms(2)])
qed


text \<open>
  On Basic Latin text every intermediate string is Basic Latin, lowercase and without
  combining marks, so the second pass changes nothing.
\<close>

lemma set_canonical_order: "set (canonical_order pending cs) = set pending \<union> set cs"
  by (induction pending cs rule: canonical_order.induct) auto

lemma canonical_order_starters:
  "\<forall>c \<in> set cs. ccc c = 0 \<Longrightarrow> canonical_order [] cs = cs"
  by (induction cs) auto

lemma ascii_normalized_chars:
  assumes "\<forall>c \<in> set s. c < 128" and "c \<in> set (normalize_text ucd (Str s))"
  shows "c < 128 \<and> \<not> (65 \<le> c \<and> c \<le> 90)"
proof (cases "s = []")
  case True
  with assms(2) show ?thesis by (simp add: normalize_text_def)
next
  case False
  define L where "L = toLowerCase ucd s"
  define N where "N = nfd ucd (trim ucd L)"
  define M where "M = map (\<lambda>c. if Punctuation ucd c then 32 else c)
                        (filter (\<lambda>c. \<not> Diacritic ucd c) N)"
  have y: "normalize_text ucd (Str s) = trim ucd (collapse_ws ucd M)"
    using False by (simp add: normalize_text_def Let_def M_def N_def L_def)
  have l: "\<forall>c \<in> set L. c < 128 \<and> \<not> (65 \<le> c \<and> c \<le> 90)"
    using assms(1) by (auto simp: L_def ucd_def)
  have "set N = set (trim ucd L)"
    by (simp add: N_def ucd_def set_canonical_order)
  with set_trim[of ucd L] have n: "set N \<subseteq> set L" by simp
  have m: "set M \<subseteq> insert 32 (set N)"
    by (auto simp: M_def)
  have "set (trim ucd (collapse_ws ucd M)) \<subseteq> insert 32 (set M)"
    using set_trim[of ucd "collapse_ws ucd M"] set_collapse_ws[of ucd M] by blast
  with m n have "set (normalize_text ucd (Str s)) \<subseteq> insert 32 (set L)"
    unfolding y by blast
  with assms(2) have "c = 32 \<or> c \<in> set L" by blast
  with l show ?thesis by auto
qed

lemma normalize_idempotent_ascii:
  assumes "\<forall>c \<in> set s. c < 128"
  shows "normalize_text ucd (Str (normalize_text ucd (Str s))) = normalize_text ucd (Str s)"
proof -
  define y where "y = normalize_text ucd (Str s)"
  have chars: "\<forall>c \<in> set y. c < 128 \<and> \<not> (65 \<le> c \<and> c \<le> 90)"
    using ascii_normalized_chars[OF assms] by (simp add: y_def)
  have sp: "\<not> Diacritic ucd 32" "\<not> Punctuation ucd 32"
    by (simp_all add: ucd_def)
  have "toLowerCase ucd y = map (\<lambda>c. if 65 \<le> c \<and> c \<le> 90 then c + 32 else c) y"
    by (simp add: ucd_def)
  also have "\<dots> = y"
    using chars by (intro map_idI) auto
  finally have l: "toLowerCase ucd y = y" .
  have "\<forall>c \<in> set y. ccc c = 0"
    using chars by (auto simp: ccc_def)
  then have n: "nfd ucd y = y"
    by (simp add: ucd_def canonical_order_starters)
  from normalize_text_shape[OF sp, of "Str s"]
  have "normalize_text ucd (Str y) = y"
    unfolding y_def[symmetric] by (intro normalize_text_fixed l n) auto
  then show ?thesis by (simp add: y_def)
qed


text \<open>
  C5 (as stated, refuted). The claim: \<open>normalize(normalize(x)) = normalize(x)\<close> for every
  \<open>x\<close>. In \<open>a\<close>, U+0363, \<open>^\<close>, U+0359 the circumflex, which has the Diacritic property,
  separates two combining marks that do not. The first pass removes it and leaves U+0363
  (class 230) before U+0359 (class 220); the NFD step of the second pass puts them in
  canonical order.
\<close>

theorem normalize_idempotent_counterexample:
  "normalize_text ucd (Str (normalize_text ucd (Str marks_out_of_order)))
   \<noteq> normalize_text ucd (Str marks_out_of_order)"
  by code_simp


lemma marks_values:
  "normalize_text ucd (Str marks_out_of_order) = [0x61, 0x363, 0x359]"
  "normalize_text ucd (Str [0x61, 0x363, 0x359]) = [0x61, 0x359, 0x363]"
  by code_simp+

lemma punctuated_name_normalized:
  "normalize_text ucd (Str punctuated_name) = str ''al hussein dr omar''"
  by code_simp

lemma punctuated_name_stable:
  "\<not> Diacritic ucd 32" "\<not> Punctuation ucd 32"
  "toLowerCase ucd (str ''al hussein dr omar'') = str ''al hussein dr omar''"
  "nfd ucd (str ''al hussein dr omar'') = str ''al hussein dr omar''"
  by code_simp+


text \<open>
  C5 (amended). \<open>normalize\<close> always returns a string, the empty one for \<open>null\<close>,
  \<open>undefined\<close> and the empty string. \<open>normalize(normalize(x)) = normalize(x)\<close> holds for
  every input whose normalized form is left unchanged by \<open>toLowerCase\<close> and by NFD
  normalization, whatever the Unicode tables are, as long as the space is neither a
  diacritic nor punctuation.
\<close>

theorem normalize_idempotent_when_stable:
  assumes "\<not> Diacritic U 32" and "\<not> Punctuation U 32"
    and "toLowerCase U (normalize_text U x) = normalize_text U x"
    and "nfd U (normalize_text U x) = normalize_text U x"
  shows "normalize_text U (Str (normalize_text U x)) = normalize_text U x
         \<and> normalize_text U Null = [] \<and> normalize_text U Undefined = []
         \<and> normalize_text U (Str []) = []"
proof -
  from normalize_text_shape[OF assms(1,2), of x]
  have "normalize_text U (Str (normalize_text U x)) = normalize_text U x"
    by (intro normalize_text_fixed assms(3,4)) auto
  then show ?thesis by (simp add: normalize_text_def)
qed


text \<open>\<open>Al-Hussein, Dr. Omar!\<close> normalizes to \<open>al hussein dr omar\<close>, and that to itself.\<close>

theorem normalize_idempotent_when_stable_witness:
  "normalize_text ucd (Str punctuated_name) = str ''al hussein dr omar''
   \<and> toLowerCase ucd (normalize_text ucd (Str punctuated_name)) = normalize_text ucd (Str punctuated_name)
   \<and> nfd ucd (normalize_text ucd (Str punctuated_name)) = normalize_text ucd (Str punctuated_name)
   \<and> normalize_text ucd (Str (normalize_text ucd (Str punctuated_name)))
     = normalize_text ucd (Str punctuated_name)"
proof -
  have l: "toLowerCase ucd (normalize_text ucd (Str punctuated_name)) = normalize_text ucd (Str punctuated_name)"
    by (simp only: punctuated_name_normalized punctuated_name_stable)
  have n: "nfd ucd (normalize_text ucd (Str punctuated_name)) = normalize_text ucd (Str punctuated_name)"
    by (simp only: punctuated_name_normalized punctuated_name_stable)
  from normalize_idempotent_when_stable[OF punctuated_name_stable(1,2) l n]
    punctuated_name_normalized l n
  show ?thesis by blast
qed

section \<open>Reflexivity of the two scorers\<close>

subsection \<open>\<open>calculateSimilarity\<close>\<close>

lemma length_fill_row:
  "length prev = Suc (length xs) \<Longrightarrow> length (fill_row c xs prev left) = length xs"
proof (induction xs arbitrary: prev left)
  case Nil
  then show ?case by simp
next
  case (Cons x xs)
  then obtain d p ps where prev: "prev = d # p # ps"
    by (cases prev; cases "tl prev") auto
  with Cons show ?case by (simp add: Let_def)
qed

lemma fill_row_diagonal:
  "i < length xs \<Longrightarrow> length prev = Suc (length xs) \<Longrightarrow> c = xs ! i
   \<Longrightarrow> fill_row c xs prev left ! i = prev ! i"
proof (induction xs arbitrary: prev left i)
  case Nil
  then show ?case by simp
next
  case (Cons x xs)
  then obtain d p ps where prev: "prev = d # p # ps"
    by (cases prev; cases "tl prev") auto
  show ?case
  proof (cases i)
    case 0
    with Cons.prems prev show ?thesis by (simp add: Let_def)
  next
    case (Suc j)
    with Cons.prems prev have "fill_row c xs (p # ps) v ! j = (p # ps) ! j" for v
      by (intro Cons.IH) auto
    with Suc prev show ?thesis by (simp add: Let_def)
  qed
qed

lemma levenshtein_rows_same:
  "i \<le> length s \<Longrightarrow>
   \<exists>row. fold (next_row s) (take i s) (0, [0..<Suc (length s)]) = (i, row)
         \<and> length row = Suc (length s) \<and> row ! i = 0"
proof (induction i)
  case 0
  show ?case by (simp add: upt_conv_Cons del: upt_Suc)
next
  case (Suc i)
  then obtain row where row: "fold (next_row s) (take i s) (0, [0..<Suc (length s)]) = (i, row)"
    "length row = Suc (length s)" "row ! i = 0"
    by auto
  from Suc.prems have i: "i < length s" by simp
  have "take (Suc i) s = take i s @ [s ! i]"
    using i by (simp add: take_Suc_conv_app_nth)
  then have "fold (next_row s) (take (Suc i) s) (0, [0..<Suc (length s)])
             = (Suc i, Suc i # fill_row (s ! i) s row (Suc i))"
    using row(1) by (simp add: next_row_def)
  moreover have "length (Suc i # fill_row (s ! i) s row (Suc i)) = Suc (length s)"
    using row(2) by (simp add: length_fill_row)
  moreover have "(Suc i # fill_row (s ! i) s row (Suc i)) ! Suc i = 0"
    using fill_row_diagonal[OF i row(2), of "s ! i" "Suc i"] row(3) by simp
  ultimately show ?case by blast
qed

lemma levenshtein_same: "levenshtein s s = 0"
proof -
  obtain row where row: "fold (next_row s) s (0, [0..<Suc (length s)]) = (length s, row)"
    "length row = Suc (length s)" "row ! length s = 0"
    using levenshtein_rows_same[of "length s" s] by auto
  then have "last row = 0"
    by (metis diff_Suc_1 last_conv_nth length_0_conv nat.distinct(1))
  with row(1) show ?thesis by (simp add: levenshtein_def)
qed

lemma calculateSimilarity_reflexive: "s \<noteq> [] \<Longrightarrow> calculateSimilarity s s = 1"
  by (simp add: calculateSimilarity_def Let_def levenshtein_same)

subsection \<open>\<open>jaroWinkler\<close>\<close>

lemma scan_window_first:
  "start \<le> i \<Longrightarrow> i < e \<Longrightarrow> \<forall>j. start \<le> j \<and> j < i \<longrightarrow> ms ! j \<Longrightarrow> \<not> ms ! i \<Longrightarrow> c = s2 ! i
   \<Longrightarrow> scan_window c s2 ms start e = Some i"
proof (induction c s2 ms start e rule: scan_window.induct)
  case (1 c s2 ms j e)
  show ?case
  proof (cases "j = i")
    case True
    with "1.prems" show ?thesis by (subst scan_window.simps) simp
  next
    case False
    with "1.prems" have lt: "j < i" "j < e" "ms ! j" by auto
    have "scan_window c s2 ms (Suc j) e = Some i"
    proof (rule "1.IH"(1))
      show "j < e" "ms ! j" by (rule lt)+
      show "Suc j \<le> i" using lt by simp
      show "i < e" "\<not> ms ! i" "c = s2 ! i" using "1.prems" by simp_all
      show "\<forall>ja. Suc j \<le> ja \<and> ja < i \<longrightarrow> ms ! ja" using "1.prems" by simp
    qed
    with lt show ?thesis by (subst scan_window.simps) simp
  qed
qed

lemma flags_update:
  assumes "i < n"
  shows "(replicate i True @ replicate (n - i) False)[i := True]
         = replicate (Suc i) True @ replicate (n - Suc i) False"
proof -
  obtain m where m: "n - i = Suc m" "n - Suc i = m"
    using assms by (metis Suc_diff_Suc)
  show ?thesis
    unfolding m by (simp add: list_update_append replicate_app_Cons_same)
qed

lemma match_loop_same_prefix:
  assumes n: "2 \<le> length s"
  shows "i \<le> length s \<Longrightarrow>
         fold (match_step s s) [0..<i] (replicate (length s) False, replicate (length s) False, 0)
         = (replicate i True @ replicate (length s - i) False,
            replicate i True @ replicate (length s - i) False, i)"
proof (induction i)
  case 0
  show ?case by simp
next
  case (Suc i)
  let ?ms = "replicate i True @ replicate (length s - i) False"
  from Suc.prems have i: "i < length s" by simp
  have md: "0 \<le> matchDistance s s"
    using n by (simp add: matchDistance_def)
  have start: "nat (max 0 (int i - matchDistance s s)) \<le> i"
    using md by simp
  have e: "i < nat (min (int i + matchDistance s s + 1) (int (length s)))"
    using md i by simp
  have "scan_window (s ! i) s ?ms (nat (max 0 (int i - matchDistance s s)))
          (nat (min (int i + matchDistance s s + 1) (int (length s)))) = Some i"
    using start e i by (intro scan_window_first) (auto simp: nth_append)
  then have "match_step s s i (?ms, ?ms, i)
             = (replicate (Suc i) True @ replicate (length s - Suc i) False,
                replicate (Suc i) True @ replicate (length s - Suc i) False, Suc i)"
    using i by (simp add: match_step_def Let_def flags_update)
  with Suc show ?case by simp
qed

lemma match_loop_same:
  "2 \<le> length s \<Longrightarrow> match_loop s s = (replicate (length s) True, replicate (length s) True, length s)"
  using match_loop_same_prefix[of s "length s"] by (simp add: match_loop_def)

lemma next_matched_here: "k < length ms \<Longrightarrow> ms ! k \<Longrightarrow> next_matched ms k = k"
  by (subst next_matched.simps) simp

lemma transp_loop_same:
  "length s = n \<Longrightarrow> transp_loop s s (replicate n True) (replicate n True) i i t = t"
proof (induction "n - i" arbitrary: i)
  case 0
  then show ?case by (subst transp_loop.simps) simp
next
  case (Suc d)
  then have i: "i < n" by simp
  from Suc(1)[of "Suc i"] Suc(2,3) have "transp_loop s s (replicate n True) (replicate n True) (Suc i) (Suc i) t = t"
    by simp
  with i Suc(3) show ?case
    by (subst transp_loop.simps) (simp add: Let_def next_matched_here)
qed

lemma jaroWinkler_reflexive: "2 \<le> length s \<Longrightarrow> jaroWinkler s s = 1"
proof -
  assume n: "2 \<le> length s"
  then have ne: "s \<noteq> []" "length s \<noteq> 0" by auto
  have t: "transp_loop s s (replicate (length s) True) (replicate (length s) True) 0 0 0 = 0"
    by (rule transp_loop_same) simp
  show ?thesis
    using ne by (simp add: jaroWinkler_def match_loop_same[OF n] t Let_def)
qed

text \<open>
  C2 (the code departs from the claim). The claim: both scorers give exactly 1 on
  \<open>(s, s)\<close> for every non-empty \<open>s\<close>, single characters included. For one character
  \<open>matchDistance\<close> is \<open>floor(1 / 2) - 1 = -1\<close>, the window of the first loop is empty,
  no match is counted and \<open>jaroWinkler\<close> returns 0. The lemmas above show the claim for
  \<open>calculateSimilarity\<close> on every non-empty string and for \<open>jaroWinkler\<close> on every
  string of two or more characters.
\<close>

theorem jaroWinkler_single_character:
  "jaroWinkler [c] [c] = 0"
  by (simp add: jaroWinkler_def match_loop_def match_step_def matchDistance_def
      scan_window.simps)

section \<open>The loops of \<open>jaroWinkler\<close>\<close>

text \<open>
  The first loop marks as many slots of \<open>s2Matches\<close> as of \<open>s1Matches\<close>, so each scan of
  the second loop finds a marked slot before the end of the array; the transpositions
  are at most the matches, and the score is not negative.
\<close>

lemma scan_window_Some:
  "scan_window c s2 ms j0 e = Some j \<Longrightarrow> j0 \<le> j \<and> j < e \<and> \<not> ms ! j \<and> c = s2 ! j"
proof (induction c s2 ms j0 e rule: scan_window.induct)
  case (1 c s2 ms j0 e)
  from "1.prems" have lt: "j0 < e"
    by (subst (asm) scan_window.simps) (simp split: if_splits)
  show ?case
  proof (cases "ms ! j0 \<or> c \<noteq> s2 ! j0")
    case True
    with lt "1.prems" have "scan_window c s2 ms (Suc j0) e = Some j"
      by (subst (asm) scan_window.simps) (auto split: if_splits)
    with True lt "1.IH" have "Suc j0 \<le> j \<and> j < e \<and> \<not> ms ! j \<and> c = s2 ! j"
      by blast
    then show ?thesis by simp
  next
    case False
    with lt "1.prems" have "j = j0"
      by (subst (asm) scan_window.simps) simp
    with False lt show ?thesis by simp
  qed
qed

lemma count_update_le: "count_list (ms[i := True]) True \<le> Suc (count_list ms True)"
proof (induction ms arbitrary: i)
  case Nil
  show ?case by simp
next
  case (Cons m ms)
  show ?case
  proof (cases i)
    case 0
    then show ?thesis by simp
  next
    case (Suc k)
    with Cons[of k] show ?thesis by simp
  qed
qed

lemma count_update_new:
  "j < length ms \<Longrightarrow> \<not> ms ! j \<Longrightarrow> count_list (ms[j := True]) True = Suc (count_list ms True)"
proof (induction ms arbitrary: j)
  case Nil
  then show ?case by simp
next
  case (Cons m ms)
  show ?case
  proof (cases j)
    case 0
    with Cons.prems show ?thesis by simp
  next
    case (Suc k)
    with Cons.prems Cons.IH[of k] show ?thesis by simp
  qed
qed

lemma match_step_counts:
  assumes "length m1 = length s1" and "length m2 = length s2"
    and "count_list m1 True \<le> n" and "count_list m1 True \<le> count_list m2 True"
    and "match_step s1 s2 i (m1, m2, n) = (m1', m2', n')"
  shows "length m1' = length s1 \<and> length m2' = length s2
         \<and> count_list m1' True \<le> n' \<and> count_list m1' True \<le> count_list m2' True"
proof (cases "scan_window (s1 ! i) s2 m2 (nat (max 0 (int i - matchDistance s1 s2)))
                (nat (min (int i + matchDistance s1 s2 + 1) (int (length s2))))")
  case None
  with assms show ?thesis by (simp add: match_step_def Let_def)
next
  case (Some j)
  from scan_window_Some[OF Some] assms(2) have j: "j < length m2" "\<not> m2 ! j" by auto
  from Some assms(5) have eq: "m1' = m1[i := True]" "m2' = m2[j := True]" "n' = Suc n"
    by (simp_all add: match_step_def Let_def)
  have "count_list m1' True \<le> Suc (count_list m1 True)"
    unfolding eq by (rule count_update_le)
  moreover have "count_list m2' True = Suc (count_list m2 True)"
    unfolding eq by (rule count_update_new[OF j])
  ultimately show ?thesis using assms(1-4) eq by simp
qed

lemma match_fold_counts:
  assumes "length m1 = length s1" and "length m2 = length s2"
    and "count_list m1 True \<le> n" and "count_list m1 True \<le> count_list m2 True"
    and "fold (match_step s1 s2) is (m1, m2, n) = (m1', m2', n')"
  shows "length m1' = length s1 \<and> length m2' = length s2
         \<and> count_list m1' True \<le> n' \<and> count_list m1' True \<le> count_list m2' True"
  using assms
proof (induction "is" arbitrary: m1 m2 n)
  case Nil
  then show ?case by simp
next
  case (Cons i "is")
  obtain a b c where st: "match_step s1 s2 i (m1, m2, n) = (a, b, c)"
    by (cases "match_step s1 s2 i (m1, m2, n)") auto
  from match_step_counts[OF Cons.prems(1-4) st]
  have "length a = length s1" "length b = length s2" "count_list a True \<le> c"
    "count_list a True \<le> count_list b True" by auto
  moreover from Cons.prems(5) st have "fold (match_step s1 s2) is (a, b, c) = (m1', m2', n')"
    by simp
  ultimately show ?case by (rule Cons.IH)
qed

lemma match_loop_counts:
  assumes "match_loop s1 s2 = (m1, m2, n)"
  shows "length m1 = length s1 \<and> length m2 = length s2
         \<and> count_list m1 True \<le> n \<and> count_list m1 True \<le> count_list m2 True"
proof -
  have z: "count_list (replicate k False) True = 0" for k
    by (induction k) auto
  show ?thesis
    by (rule match_fold_counts[OF _ _ _ _ assms[unfolded match_loop_def]]) (simp_all add: z)
qed

lemma next_matched_found:
  "0 < count_list (drop k ms) True \<Longrightarrow>
   next_matched ms k < length ms \<and> ms ! next_matched ms k
   \<and> count_list (drop k ms) True = Suc (count_list (drop (Suc (next_matched ms k)) ms) True)"
proof (induction ms k rule: next_matched.induct)
  case (1 ms k)
  from "1.prems" have k: "k < length ms"
    by (cases "k < length ms") auto
  then have d: "drop k ms = ms ! k # drop (Suc k) ms"
    by (simp add: Cons_nth_drop_Suc)
  show ?case
  proof (cases "ms ! k")
    case True
    with k have "next_matched ms k = k" by (subst next_matched.simps) simp
    with True k d show ?thesis by simp
  next
    case False
    with k have n: "next_matched ms k = next_matched ms (Suc k)"
      by (subst next_matched.simps) simp
    from False d "1.prems" have "0 < count_list (drop (Suc k) ms) True" by simp
    with "1.IH" k False have "next_matched ms (Suc k) < length ms \<and> ms ! next_matched ms (Suc k)
      \<and> count_list (drop (Suc k) ms) True
          = Suc (count_list (drop (Suc (next_matched ms (Suc k))) ms) True)"
      by blast
    with n False d show ?thesis by simp
  qed
qed

lemma scans_in_range_counts:
  "count_list (drop i m1) True \<le> count_list (drop k m2) True \<Longrightarrow> scans_in_range m1 m2 i k"
proof (induction m1 m2 i k rule: scans_in_range.induct)
  case (1 m1 m2 i k)
  show ?case
  proof (cases "i < length m1")
    case False
    then show ?thesis by (subst scans_in_range.simps) simp
  next
    case True
    then have d: "drop i m1 = m1 ! i # drop (Suc i) m1"
      by (simp add: Cons_nth_drop_Suc)
    show ?thesis
    proof (cases "m1 ! i")
      case False
      with d "1.prems" have "count_list (drop (Suc i) m1) True \<le> count_list (drop k m2) True"
        by simp
      with "1.IH"(1) True False have "scans_in_range m1 m2 (Suc i) k" by blast
      with True False show ?thesis by (subst scans_in_range.simps) simp
    next
      case m: True
      with d "1.prems" have s: "Suc (count_list (drop (Suc i) m1) True) \<le> count_list (drop k m2) True"
        by simp
      then have "0 < count_list (drop k m2) True" by simp
      note f = next_matched_found[OF this]
      with s have "count_list (drop (Suc i) m1) True
                   \<le> count_list (drop (Suc (next_matched m2 k)) m2) True"
        by simp
      with "1.IH"(2) True m have "scans_in_range m1 m2 (Suc i) (Suc (next_matched m2 k))" by blast
      with True m f show ?thesis by (subst scans_in_range.simps) simp
    qed
  qed
qed

lemma jaroWinkler_scans_in_range:
  "match_loop s1 s2 = (s1Matches, s2Matches, matches) \<Longrightarrow> scans_in_range s1Matches s2Matches 0 0"
  using match_loop_counts[of s1 s2 s1Matches s2Matches matches]
  by (intro scans_in_range_counts) simp

lemma transp_loop_bound:
  "length m1 = length s1 \<Longrightarrow> transp_loop s1 s2 m1 m2 i k t \<le> t + count_list (drop i m1) True"
proof (induction s1 s2 m1 m2 i k t rule: transp_loop.induct)
  case (1 s1 s2 m1 m2 i k t)
  show ?case
  proof (cases "i < length s1")
    case False
    then show ?thesis by (subst transp_loop.simps) simp
  next
    case True
    with "1.prems" have d: "drop i m1 = m1 ! i # drop (Suc i) m1"
      by (simp add: Cons_nth_drop_Suc)
    show ?thesis
    proof (cases "m1 ! i")
      case False
      with "1.IH"(1) True "1.prems"
      have "transp_loop s1 s2 m1 m2 (Suc i) k t \<le> t + count_list (drop (Suc i) m1) True" by blast
      with True False d show ?thesis by (subst transp_loop.simps) simp
    next
      case m: True
      define k' where "k' = next_matched m2 k"
      define t' where "t' = (if s1 ! i \<noteq> s2 ! k' then Suc t else t)"
      from "1.IH"(2) True m "1.prems" k'_def
      have "transp_loop s1 s2 m1 m2 (Suc i) (Suc k') t' \<le> t' + count_list (drop (Suc i) m1) True"
        unfolding t'_def by blast
      moreover have "t' \<le> Suc t" by (simp add: t'_def)
      moreover have "transp_loop s1 s2 m1 m2 i k t = transp_loop s1 s2 m1 m2 (Suc i) (Suc k') t'"
        using True m by (subst transp_loop.simps) (simp add: Let_def k'_def t'_def)
      ultimately show ?thesis using d m by simp
    qed
  qed
qed

lemma common_prefix_bound: "common_prefix s1 s2 i p \<le> p + (4 - i)"
proof (induction s1 s2 i p rule: common_prefix.induct)
  case (1 s1 s2 i p)
  show ?case
  proof (cases "i < min 4 (min (length s1) (length s2)) \<and> s1 ! i = s2 ! i")
    case True
    with "1.IH" have "common_prefix s1 s2 (Suc i) (Suc p) \<le> Suc p + (4 - Suc i)" by blast
    with True show ?thesis by (subst common_prefix.simps) auto
  next
    case False
    then show ?thesis by (subst common_prefix.simps) auto
  qed
qed

lemma winkler_nonneg:
  fixes jaro p :: rat
  assumes "0 \<le> jaro" and "0 \<le> p" and "p \<le> 4"
  shows "0 \<le> jaro + p * (1 / 10) * (1 - jaro)"
proof -
  have "jaro + p * (1 / 10) * (1 - jaro) = jaro * (1 - p / 10) + p / 10"
    by (simp add: field_simps)
  moreover have "0 \<le> jaro * (1 - p / 10)"
    using assms by (intro mult_nonneg_nonneg) auto
  ultimately show ?thesis using assms(2) by simp
qed

lemma jaroWinkler_nonneg: "0 \<le> jaroWinkler s1 s2"
proof (cases "s1 = [] \<or> s2 = []")
  case True
  then show ?thesis by (auto simp: jaroWinkler_def)
next
  case False
  obtain m1 m2 n where ml: "match_loop s1 s2 = (m1, m2, n)"
    by (cases "match_loop s1 s2") auto
  show ?thesis
  proof (cases "n = 0")
    case True
    with False ml show ?thesis by (simp add: jaroWinkler_def)
  next
    case n: False
    define T where "T = transp_loop s1 s2 m1 m2 0 0 0"
    define P where "P = common_prefix s1 s2 0 0"
    from match_loop_counts[OF ml] have c: "length m1 = length s1" "count_list m1 True \<le> n" by auto
    from transp_loop_bound[OF c(1), of s2 m2 0 0 0] c(2) have "T \<le> n" by (simp add: T_def)
    then have t: "(of_nat T :: rat) / 2 \<le> of_nat n"
      by (metis (no_types) div_by_1 frac_le of_nat_0_le_iff of_nat_mono one_le_numeral zero_less_one)
    define jaro :: rat where
      "jaro = (of_nat n / of_nat (length s1) + of_nat n / of_nat (length s2)
               + (of_nat n - of_nat T / 2) / of_nat n) / 3"
    have "0 \<le> (of_nat n - of_nat T / 2) / (of_nat n :: rat)"
      using t by (intro divide_nonneg_nonneg) auto
    then have j: "0 \<le> jaro"
      by (simp add: jaro_def)
    have p: "(of_nat P :: rat) \<le> 4"
      using common_prefix_bound[of s1 s2 0 0] by (simp add: P_def)
    have "jaroWinkler s1 s2 = jaro + of_nat P * (1 / 10) * (1 - jaro)"
      using False n ml by (simp add: jaroWinkler_def Let_def jaro_def T_def P_def)
    with winkler_nonneg[OF j _ p] show ?thesis by simp
  qed
qed


section \<open>Token-aware similarity\<close>

lemma fold_best:
  fixes f :: "'a \<Rightarrow> rat"
  shows "fold (\<lambda>b best. let jw = f b in if jw > best then jw else best) xs a
         = Max (insert a (f ` set xs))"
proof -
  have "(\<lambda>b best. let jw = f b in if jw > best then jw else best) = (\<lambda>b. max (f b))"
    by (auto simp: fun_eq_iff Let_def max_def)
  then have "fold (\<lambda>b best. let jw = f b in if jw > best then jw else best) xs a
             = fold max (map f xs) a"
    by (simp add: fold_map comp_def)
  also have "\<dots> = Max (set (a # map f xs))"
    by (simp only: Max.set_eq_fold)
  finally show ?thesis by simp
qed

lemma best_match_Max:
  assumes "nb \<noteq> []"
  shows "best_match tokenA nb = Max (jaroWinkler tokenA ` set nb)"
proof -
  have "best_match tokenA nb = Max (insert 0 (jaroWinkler tokenA ` set nb))"
    unfolding best_match_def by (rule fold_best)
  also have "\<dots> = max 0 (Max (jaroWinkler tokenA ` set nb))"
    using assms by (intro Max_insert) auto
  also have "\<dots> = Max (jaroWinkler tokenA ` set nb)"
  proof -
    from assms obtain b where "b \<in> set nb" by (cases nb) auto
    then have "jaroWinkler tokenA b \<le> Max (jaroWinkler tokenA ` set nb)" by simp
    with jaroWinkler_nonneg[of tokenA b] show ?thesis by simp
  qed
  finally show ?thesis .
qed

lemma fold_total:
  fixes g :: "'a \<Rightarrow> rat"
  shows "fold (\<lambda>x total. total + g x) xs a = a + sum_list (map g xs)"
  by (induction xs arbitrary: a) (auto simp: algebra_simps)

lemma tokenSimilarity_refines: "tokenSimilarity U a b = tokenSimilarity_spec U a b"
proof -
  define na where "na = tokens (normalize_text U (Str a))"
  define nb where "nb = tokens (normalize_text U (Str b))"
  show ?thesis
  proof (cases "na = [] \<or> nb = []")
    case True
    then show ?thesis
      by (auto simp: tokenSimilarity_def tokenSimilarity_spec_def Let_def na_def nb_def)
  next
    case False
    then have nb: "nb \<noteq> []" by simp
    have "map (\<lambda>tokenA. best_match tokenA nb) na
          = map (\<lambda>tokenA. Max (jaroWinkler tokenA ` set nb)) na"
      by (rule map_cong) (simp_all add: best_match_Max[OF nb])
    then have "sum_list (map (\<lambda>tokenA. best_match tokenA nb) na)
               = sum_list (map (\<lambda>tokenA. Max (jaroWinkler tokenA ` set nb)) na)"
      by (rule arg_cong)
    then have "fold (\<lambda>tokenA total. total + best_match tokenA nb) na 0
               = sum_list (map (\<lambda>tokenA. Max (jaroWinkler tokenA ` set nb)) na)"
      by (simp add: fold_total)
    with False show ?thesis
      by (simp add: tokenSimilarity_def tokenSimilarity_spec_def Let_def na_def[symmetric]
          nb_def[symmetric])
  qed
qed

lemma al_rashid_similarity:
  "tokenSimilarity ucd (str ''Mohammad Al Rashid'') (str ''Al Rashid'') = 61 / 72"
  by code_simp


text \<open>
  C9. \<open>tokenSimilarity("Mohammad Al Rashid", "Al Rashid")\<close> exceeds 0.8 (it is
  \<open>61/72\<close>: \<open>al\<close> and \<open>rashid\<close> match exactly, \<open>mohammad\<close> scores \<open>13/24\<close> against \<open>al\<close>).
  In general \<open>tokenSimilarity\<close> computes what the description says: both inputs
  normalized and split into tokens, for each token of the first the best \<open>jaroWinkler\<close>
  score against the tokens of the second, the mean over the tokens of the first, and 0
  when either side has no tokens.
\<close>

theorem tokenSimilarity_al_rashid:
  "8 / 10 < tokenSimilarity ucd (str ''Mohammad Al Rashid'') (str ''Al Rashid'')
   \<and> tokenSimilarity U a b = tokenSimilarity_spec U a b"
proof -
  have "8 / 10 < tokenSimilarity ucd (str ''Mohammad Al Rashid'') (str ''Al Rashid'')"
    by (simp add: al_rashid_similarity)
  with tokenSimilarity_refines show ?thesis by blast
qed

section \<open>Deduplication, order and truncation: the shared tail\<close>

subsection \<open>The map\<close>

lemma map_fst_map_set:
  "map fst (map_set m k v) = (if k \<in> fst ` set m then map fst m else map fst m @ [k])"
proof (induction m)
  case Nil
  show ?case by simp
next
  case (Cons e m)
  obtain k' v' where e: "e = (k', v')" by (cases e)
  show ?case
  proof (cases "k' = k")
    case True
    then show ?thesis by (simp add: e)
  next
    case False
    then have "k \<in> fst ` set (e # m) \<longleftrightarrow> k \<in> fst ` set m" by (auto simp: e)
    with False Cons show ?thesis by (simp add: e)
  qed
qed

lemma map_of_map_set: "map_of (map_set m k v) = (map_of m)(k \<mapsto> v)"
  by (induction m) (auto simp: fun_eq_iff)

lemma map_fst_best_step:
  "map fst (best_step key r m) = (if key r \<in> fst ` set m then map fst m else map fst m @ [key r])"
proof (cases "map_of m (key r)")
  case None
  then have "key r \<notin> fst ` set m" by (simp add: map_of_eq_None_iff)
  then show ?thesis unfolding best_step_def None by (simp add: map_fst_map_set)
next
  case (Some prev)
  then have "key r \<in> fst ` set m"
    by (metis map_of_eq_None_iff option.distinct(1))
  with Some show ?thesis by (simp add: best_step_def map_fst_map_set)
qed

lemma map_of_best_step:
  "map_of (best_step key r m) =
     (map_of m)(key r \<mapsto>
        (case map_of m (key r) of None \<Rightarrow> r
         | Some prev \<Rightarrow> if score r > score prev then r else prev))"
  by (auto simp: best_step_def map_of_map_set fun_eq_iff split: option.splits)

lemma first_index_less: "x \<in> set xs \<Longrightarrow> first_index xs x < length xs"
  by (induction xs) auto

lemma first_index_append:
  "first_index (xs @ ys) x = (if x \<in> set xs then first_index xs x else length xs + first_index ys x)"
  by (induction xs) auto

lemma best_fold_keys:
  "rs = rs1 @ rs2 \<Longrightarrow>
   distinct (map fst (fold (best_step key) rs1 []))
   \<and> set (map fst (fold (best_step key) rs1 [])) = key ` set rs1
   \<and> sorted_wrt (\<lambda>a b. first_index (map key rs) a < first_index (map key rs) b)
        (map fst (fold (best_step key) rs1 []))"
proof (induction rs1 arbitrary: rs2 rule: rev_induct)
  case Nil
  show ?case by simp
next
  case (snoc r rs1)
  let ?M = "fold (best_step key) rs1 []"
  let ?K = "map key rs"
  from snoc.prems have rs: "rs = rs1 @ (r # rs2)" by simp
  note IH = snoc.IH[OF rs]
  show ?case
  proof (cases "key r \<in> fst ` set ?M")
    case True
    with IH show ?thesis by (auto simp: map_fst_best_step)
  next
    case False
    with IH have notin: "key r \<notin> key ` set rs1" by auto
    have new: "first_index ?K (key r) = length rs1"
      using notin by (simp add: rs first_index_append)
    have old: "first_index ?K a < length rs1" if "a \<in> key ` set rs1" for a
      using that first_index_less[of a "map key rs1"] by (auto simp: rs first_index_append)
    have "\<forall>a \<in> set (map fst ?M). first_index ?K a < first_index ?K (key r)"
      using IH old new by auto
    with IH False show ?thesis
      by (auto simp: map_fst_best_step sorted_wrt_append)
  qed
qed

lemma best_fold_entries:
  "map_of (fold (best_step key) rs []) k = Some v \<Longrightarrow>
   key v = k \<and> v \<in> set rs \<and> (\<forall>r \<in> set rs. key r = k \<longrightarrow> score r \<le> score v)"
proof (induction rs arbitrary: k v rule: rev_induct)
  case Nil
  then show ?case by simp
next
  case (snoc r rs)
  let ?M = "fold (best_step key) rs []"
  show ?case
  proof (cases "k = key r")
    case False
    with snoc.prems have "map_of ?M k = Some v" by (simp add: map_of_best_step)
    from snoc.IH[OF this] False show ?thesis by auto
  next
    case True
    show ?thesis
    proof (cases "map_of ?M (key r)")
      case None
      with snoc.prems True have v: "v = r" by (simp add: map_of_best_step)
      have "key r \<notin> key ` set rs"
        using None best_fold_keys[of rs rs "[]" key] by (simp add: map_of_eq_None_iff)
      then have "\<forall>ra \<in> set rs. key ra \<noteq> key r" by (auto simp: image_iff)
      with v True show ?thesis by auto
    next
      case (Some prev)
      note IH = snoc.IH[OF Some]
      from snoc.prems True Some have "v = (if score r > score prev then r else prev)"
        by (simp add: map_of_best_step)
      with IH True show ?thesis by (auto split: if_splits)
    qed
  qed
qed

subsection \<open>A stable sort keeps ties in the order of its input\<close>

lemma insort_key_tie_order:
  fixes f :: "'a \<Rightarrow> int"
  assumes "sorted_wrt (\<lambda>a b. f a < f b \<or> (f a = f b \<and> P a b)) S"
    and "sorted (map f S)"
    and "\<forall>y \<in> set S. P x y"
  shows "sorted_wrt (\<lambda>a b. f a < f b \<or> (f a = f b \<and> P a b)) (insort_key f x S)"
  using assms
proof (induction S)
  case Nil
  show ?case by simp
next
  case (Cons y ys)
  show ?case
  proof (cases "f x \<le> f y")
    case True
    have "f x < f z \<or> (f x = f z \<and> P x z)" if "z \<in> set (y # ys)" for z
    proof -
      from Cons.prems(2) that have "f y \<le> f z" by auto
      with True that Cons.prems(3) show ?thesis by force
    qed
    with True Cons.prems(1) show ?thesis by simp
  next
    case False
    from Cons.prems have tail: "sorted_wrt (\<lambda>a b. f a < f b \<or> (f a = f b \<and> P a b)) (insort_key f x ys)"
      by (intro Cons.IH) auto
    have "f y < f z \<or> (f y = f z \<and> P y z)" if "z \<in> set (insort_key f x ys)" for z
      using that False Cons.prems(1) by (auto simp: set_insort_key)
    with False tail show ?thesis by simp
  qed
qed

lemma sort_key_tie_order:
  fixes f :: "'a \<Rightarrow> int"
  shows "sorted_wrt P xs \<Longrightarrow> sorted_wrt (\<lambda>a b. f a < f b \<or> (f a = f b \<and> P a b)) (sort_key f xs)"
proof (induction xs)
  case Nil
  show ?case by simp
next
  case (Cons x xs)
  then have "sorted_wrt (\<lambda>a b. f a < f b \<or> (f a = f b \<and> P a b)) (insort_key f x (sort_key f xs))"
    by (intro insort_key_tie_order) (auto simp: sorted_sort_key)
  then show ?case by simp
qed

subsection \<open>The deduplicated candidates\<close>

lemma best_fold_all:
  "distinct (map fst (fold (best_step key) rs []))"
  "set (map fst (fold (best_step key) rs [])) = key ` set rs"
  "sorted_wrt (\<lambda>a b. first_index (map key rs) a < first_index (map key rs) b)
     (map fst (fold (best_step key) rs []))"
  using best_fold_keys[of rs rs "[]" key] by simp_all

lemma deduped_entry:
  assumes "e \<in> set (fold (best_step key) rs [])"
  shows "key (snd e) = fst e \<and> snd e \<in> set rs
         \<and> (\<forall>r \<in> set rs. key r = fst e \<longrightarrow> score r \<le> score (snd e))"
proof -
  from assms have "(fst e, snd e) \<in> set (fold (best_step key) rs [])" by simp
  then have "map_of (fold (best_step key) rs []) (fst e) = Some (snd e)"
    by (rule map_of_is_SomeI[OF best_fold_all(1)])
  from best_fold_entries[OF this] show ?thesis .
qed

lemma deduped_keys:
  "map key (map snd (fold (best_step key) rs [])) = map fst (fold (best_step key) rs [])"
  using deduped_entry[of _ key rs] by (auto intro: map_cong)

lemma deduped_distinct: "distinct (map key (map snd (fold (best_step key) rs [])))"
  by (simp only: deduped_keys best_fold_all(1))

lemma deduped_key_set: "key ` set (map snd (fold (best_step key) rs [])) = key ` set rs"
proof -
  have "set (map key (map snd (fold (best_step key) rs []))) = key ` set rs"
    by (simp only: deduped_keys best_fold_all(2))
  then show ?thesis by (simp add: image_image)
qed

lemma deduped_subset: "set (map snd (fold (best_step key) rs [])) \<subseteq> set rs"
  using deduped_entry[of _ key rs] by auto

lemma deduped_best:
  "v \<in> set (map snd (fold (best_step key) rs [])) \<Longrightarrow> r \<in> set rs \<Longrightarrow> key r = key v
   \<Longrightarrow> score r \<le> score v"
  using deduped_entry[of _ key rs] by auto

lemma deduped_discovery_order:
  "sorted_wrt (\<lambda>a b. first_index (map key rs) (key a) < first_index (map key rs) (key b))
     (map snd (fold (best_step key) rs []))"
proof -
  have "sorted_wrt (\<lambda>a b. first_index (map key rs) a < first_index (map key rs) b)
          (map key (map snd (fold (best_step key) rs [])))"
    by (simp only: deduped_keys best_fold_all(3))
  then show ?thesis by (simp only: sorted_wrt_map)
qed


subsection \<open>\<open>ranked\<close>\<close>

lemma slice0_take: "\<exists>n. slice0 xs e = take n xs"
  by (auto simp: slice0_def)

lemma slice0_nonneg: "0 \<le> e \<Longrightarrow> slice0 xs e = take (nat e) xs"
  by (simp add: slice0_def)

lemma ranked_take:
  "\<exists>n. ranked key cap rs
        = map item (take n (sort_key (\<lambda>r. - score r) (map snd (fold (best_step key) rs []))))"
  using slice0_take[of "sort_key (\<lambda>r. - score r) (map snd (fold (best_step key) rs []))" cap]
  by (auto simp: ranked_def Let_def)

lemma ranked_records:
  assumes "\<forall>r \<in> set rs. mk (item r) = r" and "x \<in> set (ranked key cap rs)"
  shows "mk x \<in> set (map snd (fold (best_step key) rs []))"
proof -
  obtain n where n: "ranked key cap rs
      = map item (take n (sort_key (\<lambda>r. - score r) (map snd (fold (best_step key) rs []))))"
    using ranked_take by blast
  with assms(2) obtain r where r: "x = item r"
    "r \<in> set (take n (sort_key (\<lambda>r. - score r) (map snd (fold (best_step key) rs []))))"
    by auto
  then have in_d: "r \<in> set (map snd (fold (best_step key) rs []))"
    using set_take_subset[of n "sort_key (\<lambda>r. - score r) (map snd (fold (best_step key) rs []))"]
    by auto
  with deduped_subset[of key rs] assms(1) have "mk (item r) = r" by blast
  with r in_d show ?thesis by simp
qed

lemma ranked_map_mk:
  assumes "\<forall>r \<in> set rs. mk (item r) = r"
  shows "map mk (ranked key cap rs)
         = slice0 (sort_key (\<lambda>r. - score r) (map snd (fold (best_step key) rs []))) cap"
proof -
  let ?S = "sort_key (\<lambda>r. - score r) (map snd (fold (best_step key) rs []))"
  obtain n where n: "slice0 ?S cap = take n ?S"
    using slice0_take by blast
  have "mk (item r) = r" if "r \<in> set (take n ?S)" for r
  proof -
    from that have "r \<in> set ?S" by (rule in_set_takeD)
    then have "r \<in> set rs" using deduped_subset[of key rs] by auto
    with assms show ?thesis by blast
  qed
  then have "map (mk \<circ> item) (take n ?S) = take n ?S"
    by (simp add: map_idI)
  with n show ?thesis by (simp add: ranked_def Let_def)
qed

lemma ranked_distinct:
  assumes "\<forall>r \<in> set rs. mk (item r) = r"
  shows "distinct (map (\<lambda>x. key (mk x)) (ranked key cap rs))"
proof -
  let ?S = "sort_key (\<lambda>r. - score r) (map snd (fold (best_step key) rs []))"
  obtain n where n: "slice0 ?S cap = take n ?S"
    using slice0_take by blast
  have "distinct (map key (map snd (fold (best_step key) rs [])))"
    by (rule deduped_distinct)
  then have "distinct (map key ?S)"
    by (simp add: distinct_map del: map_map)
  then have "distinct (map key (take n ?S))"
    by (simp only: take_map[symmetric] distinct_take)
  then have "distinct (map key (map mk (ranked key cap rs)))"
    by (simp only: ranked_map_mk[OF assms] n)
  then show ?thesis by (simp add: comp_def)
qed

lemma ranked_sorted:
  assumes "\<forall>r \<in> set rs. mk (item r) = r"
  shows "sorted_wrt
           (\<lambda>x y. score (mk y) < score (mk x)
                  \<or> (score (mk x) = score (mk y)
                     \<and> first_index (map key rs) (key (mk x)) < first_index (map key rs) (key (mk y))))
           (ranked key cap rs)"
proof -
  let ?D = "map snd (fold (best_step key) rs [])"
  let ?S = "sort_key (\<lambda>r. - score r) ?D"
  let ?P = "\<lambda>a b. first_index (map key rs) (key a) < first_index (map key rs) (key b)"
  obtain n where n: "slice0 ?S cap = take n ?S"
    using slice0_take by blast
  have "sorted_wrt (\<lambda>a b. - score a < - score b \<or> (- score a = - score b \<and> ?P a b)) ?S"
    by (rule sort_key_tie_order[OF deduped_discovery_order])
  then have "sorted_wrt (\<lambda>a b. score b < score a \<or> (score a = score b \<and> ?P a b)) ?S"
    by simp
  then have "sorted_wrt (\<lambda>a b. score b < score a \<or> (score a = score b \<and> ?P a b)) (take n ?S)"
    by (rule sorted_wrt_take)
  then have "sorted_wrt (\<lambda>a b. score b < score a \<or> (score a = score b \<and> ?P a b))
               (map mk (ranked key cap rs))"
    by (simp only: ranked_map_mk[OF assms] n)
  then show ?thesis by (simp only: sorted_wrt_map)
qed

lemma ranked_length:
  assumes "0 \<le> cap"
  shows "length (ranked key cap rs) = min (nat cap) (card (key ` set rs))"
proof -
  have "card (key ` set rs) = card (set (map fst (fold (best_step key) rs [])))"
    by (simp only: best_fold_all(2))
  also have "\<dots> = length (map fst (fold (best_step key) rs []))"
    by (rule distinct_card[OF best_fold_all(1)])
  finally have "card (key ` set rs) = length (fold (best_step key) rs [])" by simp
  with assms show ?thesis
    by (simp add: ranked_def Let_def slice0_nonneg min.commute)
qed

lemma ranked_best:
  assumes "\<forall>r \<in> set rs. mk (item r) = r" and "x \<in> set (ranked key cap rs)"
    and "r \<in> set rs" and "key r = key (mk x)"
  shows "score r \<le> score (mk x)"
  using deduped_best[OF ranked_records[OF assms(1,2)] assms(3,4)] .

lemma ranked_top:
  assumes mk: "\<forall>r \<in> set rs. mk (item r) = r" and r: "r \<in> set rs"
  shows "key r \<in> (\<lambda>x. key (mk x)) ` set (ranked key cap rs)
         \<or> (\<forall>x \<in> set (ranked key cap rs). score r \<le> score (mk x))"
proof -
  let ?D = "map snd (fold (best_step key) rs [])"
  let ?S = "sort_key (\<lambda>r. - score r) ?D"
  obtain n where n: "slice0 ?S cap = take n ?S"
    using slice0_take by blast
  have out: "map mk (ranked key cap rs) = take n ?S"
    by (simp only: ranked_map_mk[OF mk] n)
  from r deduped_key_set[of key rs] obtain v where v: "v \<in> set ?D" "key v = key r"
    by (metis (no_types, lifting) image_iff)
  with r have le: "score r \<le> score v"
    by (intro deduped_best[of v key rs r]) auto
  from v have "v \<in> set ?S" by simp
  moreover have "set ?S = set (take n ?S) \<union> set (drop n ?S)"
    by (metis append_take_drop_id set_append)
  ultimately consider "v \<in> set (take n ?S)" | "v \<in> set (drop n ?S)" by blast
  then show ?thesis
  proof cases
    case 1
    then have "v \<in> mk ` set (ranked key cap rs)"
      using out by (metis set_map)
    with v show ?thesis by force
  next
    case 2
    have "sorted (map (\<lambda>r. - score r) ?S)"
      by (rule sorted_sort_key)
    then have "sorted (map (\<lambda>r. - score r) (take n ?S @ drop n ?S))"
      by (simp only: append_take_drop_id)
    then have "\<forall>a \<in> set (take n ?S). \<forall>b \<in> set (drop n ?S). - score a \<le> - score b"
      by (simp only: map_append sorted_append set_map) blast
    with 2 have "\<forall>a \<in> set (take n ?S). score v \<le> score a" by auto
    then have "\<forall>x \<in> set (ranked key cap rs). score v \<le> score (mk x)"
      using out by (metis image_eqI set_map)
    with le show ?thesis by force
  qed
qed

section \<open>Properties of \<open>search\<close> and \<open>searchClubs\<close>\<close>

lemma item_scored_doctor [simp]: "item (scored_doctor U query d) = d"
  by (simp add: scored_doctor_def score_doctor_def Let_def)

lemma item_scored_club [simp]: "item (scored_club U query c) = c"
  by (simp add: scored_club_def score_club_def Let_def)

lemma doctor_results_mk:
  "\<forall>r \<in> set (doctor_results U ds query). scored_doctor U query (item r) = r"
  by (auto simp: doctor_results_def)

lemma club_results_mk:
  "\<forall>r \<in> set (club_results U cs query). scored_club U query (item r) = r"
  by (auto simp: club_results_def)

lemma doctor_key_canonical:
  "doctor_key U (scored_doctor U query d) = doctor_canonical_key U d"
  by (simp add: doctor_key_def doctor_canonical_key_def scored_doctor_def score_doctor_def Let_def)

lemma club_key_canonical:
  "club_key U (scored_club U query c) = club_canonical_key U c"
  by (simp add: club_key_def club_canonical_key_def scored_club_def score_club_def Let_def)

lemma doctor_results_set:
  "set (doctor_results U ds query)
   = scored_doctor U query ` {d \<in> set ds. 0 < doctor_score U query d}"
  by (auto simp: doctor_results_def doctor_score_def)

lemma club_results_set:
  "set (club_results U cs query)
   = scored_club U query ` {c \<in> set cs. 0 < club_score U query c}"
  by (auto simp: club_results_def club_score_def)

lemma doctor_results_keys:
  "doctor_key U ` set (doctor_results U ds query)
   = doctor_canonical_key U ` {d \<in> set ds. 0 < doctor_score U query d}"
  by (simp add: doctor_results_set image_image doctor_key_canonical)

lemma club_results_keys:
  "club_key U ` set (club_results U cs query)
   = club_canonical_key U ` {c \<in> set cs. 0 < club_score U query c}"
  by (simp add: club_results_set image_image club_key_canonical)

lemma search_cases:
  "search U cap ds query = []
   \<or> (query \<noteq> [] \<and> 2 \<le> length (trim U query)
      \<and> search U cap ds query = ranked (doctor_key U) cap (doctor_results U ds query))"
  by (simp add: search_def)

lemma searchClubs_cases:
  "searchClubs U cap cs query = []
   \<or> (query \<noteq> [] \<and> 2 \<le> length (trim U query)
      \<and> searchClubs U cap cs query = ranked (club_key U) cap (club_results U cs query))"
  by (simp add: searchClubs_def)

lemma search_distinct: "distinct (map (doctor_canonical_key U) (search U cap ds query))"
proof -
  have "distinct (map (\<lambda>x. doctor_key U (scored_doctor U query x))
          (ranked (doctor_key U) cap (doctor_results U ds query)))"
    by (rule ranked_distinct[OF doctor_results_mk])
  then show ?thesis
    using search_cases[of U cap ds query] by (auto simp: doctor_key_canonical)
qed

lemma searchClubs_distinct: "distinct (map (club_canonical_key U) (searchClubs U cap cs query))"
proof -
  have "distinct (map (\<lambda>x. club_key U (scored_club U query x))
          (ranked (club_key U) cap (club_results U cs query)))"
    by (rule ranked_distinct[OF club_results_mk])
  then show ?thesis
    using searchClubs_cases[of U cap cs query] by (auto simp: club_key_canonical)
qed

lemma search_best:
  assumes "d \<in> set (search U cap ds query)" and "d' \<in> set ds"
    and "0 < doctor_score U query d'"
    and "doctor_canonical_key U d' = doctor_canonical_key U d"
  shows "doctor_score U query d' \<le> doctor_score U query d"
proof -
  from assms(1) search_cases[of U cap ds query]
  have d: "d \<in> set (ranked (doctor_key U) cap (doctor_results U ds query))" by auto
  have r: "scored_doctor U query d' \<in> set (doctor_results U ds query)"
    using assms(2,3) by (auto simp: doctor_results_set)
  have "score (scored_doctor U query d') \<le> score (scored_doctor U query d)"
    by (rule ranked_best[OF doctor_results_mk d r]) (simp add: doctor_key_canonical assms(4))
  then show ?thesis by (simp add: doctor_score_def)
qed

lemma searchClubs_best:
  assumes "c \<in> set (searchClubs U cap cs query)" and "c' \<in> set cs"
    and "0 < club_score U query c'"
    and "club_canonical_key U c' = club_canonical_key U c"
  shows "club_score U query c' \<le> club_score U query c"
proof -
  from assms(1) searchClubs_cases[of U cap cs query]
  have c: "c \<in> set (ranked (club_key U) cap (club_results U cs query))" by auto
  have r: "scored_club U query c' \<in> set (club_results U cs query)"
    using assms(2,3) by (auto simp: club_results_set)
  have "score (scored_club U query c') \<le> score (scored_club U query c)"
    by (rule ranked_best[OF club_results_mk c r]) (simp add: club_key_canonical assms(4))
  then show ?thesis by (simp add: club_score_def)
qed

lemma search_length:
  assumes "0 \<le> cap"
  shows "length (search U cap ds query) \<le> nat cap"
    and "query \<noteq> [] \<and> 2 \<le> length (trim U query) \<longrightarrow>
         length (search U cap ds query)
         = min (nat cap) (card (doctor_canonical_key U ` {d \<in> set ds. 0 < doctor_score U query d}))"
  using ranked_length[OF assms, of "doctor_key U" "doctor_results U ds query"]
  by (auto simp: search_def doctor_results_keys)

lemma searchClubs_length:
  assumes "0 \<le> cap"
  shows "length (searchClubs U cap cs query) \<le> nat cap"
    and "query \<noteq> [] \<and> 2 \<le> length (trim U query) \<longrightarrow>
         length (searchClubs U cap cs query)
         = min (nat cap) (card (club_canonical_key U ` {c \<in> set cs. 0 < club_score U query c}))"
  using ranked_length[OF assms, of "club_key U" "club_results U cs query"]
  by (auto simp: searchClubs_def club_results_keys)

lemma search_sorted:
  "sorted_wrt
     (\<lambda>x y. doctor_score U query y < doctor_score U query x
            \<or> (doctor_score U query x = doctor_score U query y
               \<and> doctor_discovery U ds query x < doctor_discovery U ds query y))
     (search U cap ds query)"
proof -
  have "sorted_wrt
     (\<lambda>x y. doctor_score U query y < doctor_score U query x
            \<or> (doctor_score U query x = doctor_score U query y
               \<and> doctor_discovery U ds query x < doctor_discovery U ds query y))
     (ranked (doctor_key U) cap (doctor_results U ds query))"
    using ranked_sorted[OF doctor_results_mk[of U ds query], of "doctor_key U" cap]
    by (simp add: doctor_score_def doctor_discovery_def doctor_key_canonical)
  then show ?thesis
    using search_cases[of U cap ds query] by auto
qed

lemma searchClubs_sorted:
  "sorted_wrt
     (\<lambda>x y. club_score U query y < club_score U query x
            \<or> (club_score U query x = club_score U query y
               \<and> club_discovery U cs query x < club_discovery U cs query y))
     (searchClubs U cap cs query)"
proof -
  have "sorted_wrt
     (\<lambda>x y. club_score U query y < club_score U query x
            \<or> (club_score U query x = club_score U query y
               \<and> club_discovery U cs query x < club_discovery U cs query y))
     (ranked (club_key U) cap (club_results U cs query))"
    using ranked_sorted[OF club_results_mk[of U cs query], of "club_key U" cap]
    by (simp add: club_score_def club_discovery_def club_key_canonical)
  then show ?thesis
    using searchClubs_cases[of U cap cs query] by auto
qed

lemma search_top:
  assumes "d \<in> set ds" and "0 < doctor_score U query d"
  shows "doctor_canonical_key U d \<in> doctor_canonical_key U ` set (search U cap ds query)
         \<or> (\<forall>x \<in> set (search U cap ds query). doctor_score U query d \<le> doctor_score U query x)"
proof (cases "search U cap ds query = []")
  case True
  then show ?thesis by simp
next
  case False
  with search_cases[of U cap ds query]
  have eq: "search U cap ds query = ranked (doctor_key U) cap (doctor_results U ds query)" by auto
  have r: "scored_doctor U query d \<in> set (doctor_results U ds query)"
    using assms by (auto simp: doctor_results_set)
  from ranked_top[OF doctor_results_mk r, of "doctor_key U" cap]
  show ?thesis
    by (simp add: eq doctor_key_canonical doctor_score_def)
qed

lemma searchClubs_top:
  assumes "c \<in> set cs" and "0 < club_score U query c"
  shows "club_canonical_key U c \<in> club_canonical_key U ` set (searchClubs U cap cs query)
         \<or> (\<forall>x \<in> set (searchClubs U cap cs query). club_score U query c \<le> club_score U query x)"
proof (cases "searchClubs U cap cs query = []")
  case True
  then show ?thesis by simp
next
  case False
  with searchClubs_cases[of U cap cs query]
  have eq: "searchClubs U cap cs query = ranked (club_key U) cap (club_results U cs query)" by auto
  have r: "scored_club U query c \<in> set (club_results U cs query)"
    using assms by (auto simp: club_results_set)
  from ranked_top[OF club_results_mk r, of "club_key U" cap]
  show ?thesis
    by (simp add: eq club_key_canonical club_score_def)
qed

text \<open>
  C6. The sequence returned by \<open>search\<close>, and by \<open>searchClubs\<close>, never holds two
  records with the same canonical key (the key under which \<open>bestByName\<close> files a record,
  the normalized name); and a returned record scores at least as high as every record
  of the collection that has a positive score and the same canonical key.
\<close>

theorem search_deduplicates:
  "distinct (map (doctor_canonical_key U) (search U cap ds query))
   \<and> (\<forall>d \<in> set (search U cap ds query). \<forall>d' \<in> set ds.
        0 < doctor_score U query d' \<and> doctor_canonical_key U d' = doctor_canonical_key U d
        \<longrightarrow> doctor_score U query d' \<le> doctor_score U query d)
   \<and> distinct (map (club_canonical_key U) (searchClubs U cap cs query))
   \<and> (\<forall>c \<in> set (searchClubs U cap cs query). \<forall>c' \<in> set cs.
        0 < club_score U query c' \<and> club_canonical_key U c' = club_canonical_key U c
        \<longrightarrow> club_score U query c' \<le> club_score U query c)"
  using search_distinct searchClubs_distinct search_best searchClubs_best by blast

lemma civil_search:
  "search ucd 10 [ann_engineering, bob_civil, ann_civil] (str ''civil'') = [ann_civil, bob_civil]"
  by code_simp

lemma civil_scores:
  "doctor_score ucd (str ''civil'') ann_engineering = 60"
  "doctor_score ucd (str ''civil'') bob_civil = 100"
  "doctor_score ucd (str ''civil'') ann_civil = 100"
  by code_simp+

lemma civil_keys:
  "doctor_canonical_key ucd ann_engineering = str ''ann''"
  "doctor_canonical_key ucd ann_civil = str ''ann''"
  "doctor_canonical_key ucd bob_civil = str ''bob''"
  by code_simp+

text \<open>
  Two records named Ann and one named Bob, query \<open>civil\<close>: the higher-scoring Ann is
  returned, the other one is not.
\<close>

theorem search_deduplicates_witness:
  "search ucd 10 [ann_engineering, bob_civil, ann_civil] (str ''civil'') = [ann_civil, bob_civil]
   \<and> doctor_canonical_key ucd ann_engineering = doctor_canonical_key ucd ann_civil
   \<and> 0 < doctor_score ucd (str ''civil'') ann_engineering
   \<and> doctor_score ucd (str ''civil'') ann_engineering \<le> doctor_score ucd (str ''civil'') ann_civil
   \<and> distinct (map (doctor_canonical_key ucd)
        (search ucd 10 [ann_engineering, bob_civil, ann_civil] (str ''civil'')))"
proof -
  have k: "doctor_canonical_key ucd ann_engineering = doctor_canonical_key ucd ann_civil"
    by (simp only: civil_keys)
  have p: "0 < doctor_score ucd (str ''civil'') ann_engineering"
    by (simp only: civil_scores)
  have m: "ann_civil \<in> set (search ucd 10 [ann_engineering, bob_civil, ann_civil] (str ''civil''))"
    by (simp only: civil_search) simp
  from search_deduplicates[of ucd 10 "[ann_engineering, bob_civil, ann_civil]" "str ''civil''"]
  have d: "distinct (map (doctor_canonical_key ucd)
             (search ucd 10 [ann_engineering, bob_civil, ann_civil] (str ''civil'')))"
    and b: "\<forall>d \<in> set (search ucd 10 [ann_engineering, bob_civil, ann_civil] (str ''civil'')).
            \<forall>d' \<in> set [ann_engineering, bob_civil, ann_civil].
              0 < doctor_score ucd (str ''civil'') d'
              \<and> doctor_canonical_key ucd d' = doctor_canonical_key ucd d
              \<longrightarrow> doctor_score ucd (str ''civil'') d' \<le> doctor_score ucd (str ''civil'') d"
    by blast+
  from b m k p have "doctor_score ucd (str ''civil'') ann_engineering
                     \<le> doctor_score ucd (str ''civil'') ann_civil"
    by auto
  with civil_search k p d show ?thesis by blast
qed

text \<open>
  C10. \<open>searchClubsAll\<close> returns what \<open>searchClubs\<close> returns: in particular its result
  is cut at the result cap (for every cap \<open>n \<ge> 0\<close> it has at most \<open>n\<close> records) and is
  deduplicated by canonical key, whatever its name and comment say.
\<close>

theorem searchClubsAll_is_searchClubs:
  "searchClubsAll U cap cs query = searchClubs U cap cs query
   \<and> length (searchClubsAll U (int n) cs query) \<le> n
   \<and> distinct (map (club_canonical_key U) (searchClubsAll U cap cs query))"
  using searchClubs_length(1)[of "int n" U cs query] searchClubs_distinct[of U cap cs query]
  by (simp add: searchClubsAll_def)

lemma searchClubsAll_example:
  "searchClubsAll ucd 10 [chess_club, chess_team] (str ''chess'') = [chess_club]
   \<and> searchClubsAll ucd 1 [chess_club, chess_team\<lparr>name_of_it := Some (str ''Chess Team'')\<rparr>]
        (str ''chess'') = [chess_club]"
  by code_simp

section \<open>Truncation and order\<close>

lemma civil_discovery:
  "doctor_discovery ucd [ann_engineering, bob_civil, ann_civil] (str ''civil'') ann_civil = 0"
  "doctor_discovery ucd [ann_engineering, bob_civil, ann_civil] (str ''civil'') bob_civil = 1"
  by code_simp+

lemma civil_trim: "length (trim ucd (str ''civil'')) = 5"
  by code_simp

lemma civil_search_one:
  "search ucd 1 [ann_engineering, bob_civil, ann_civil] (str ''civil'') = [ann_civil]"
  by code_simp


text \<open>
  C7 (as stated, refuted). The claim: records with equal scores keep the order in which
  they were discovered in the input collection. \<open>bestByName.set\<close> replaces the entry of a
  key where it stands, so a record that takes over the key of an earlier, lower-scoring
  record also takes over its place: Ann of Civil (third in the collection) comes before
  Bob (second) although both score 100.
\<close>

theorem search_order_counterexample:
  "search ucd 10 [ann_engineering, bob_civil, ann_civil] (str ''civil'') = [ann_civil, bob_civil]
   \<and> doctor_score ucd (str ''civil'') ann_civil = doctor_score ucd (str ''civil'') bob_civil
   \<and> [ann_engineering, bob_civil, ann_civil] ! 1 = bob_civil
   \<and> [ann_engineering, bob_civil, ann_civil] ! 2 = ann_civil
   \<and> ann_civil \<noteq> bob_civil"
  by (simp add: civil_search civil_scores) code_simp


text \<open>
  C7 (amended). For a cap \<open>cap \<ge> 0\<close>, \<open>search\<close> (and \<open>searchClubs\<close>) returns at most
  \<open>cap\<close> records, and for a query that passes the length check exactly the smaller of
  \<open>cap\<close> and the number of canonical keys among the records with a positive score. The
  result is sorted by descending score, and records with equal scores stand in the order
  in which their canonical keys were first met in the collection. A scoring record of
  the collection has its canonical key in the result, or scores no higher than any record
  returned.
\<close>

theorem search_truncation_and_order:
  assumes "0 \<le> cap"
  shows "length (search U cap ds query) \<le> nat cap
   \<and> (query \<noteq> [] \<and> 2 \<le> length (trim U query) \<longrightarrow>
        length (search U cap ds query)
        = min (nat cap) (card (doctor_canonical_key U ` {d \<in> set ds. 0 < doctor_score U query d})))
   \<and> sorted_wrt
        (\<lambda>x y. doctor_score U query y < doctor_score U query x
               \<or> (doctor_score U query x = doctor_score U query y
                  \<and> doctor_discovery U ds query x < doctor_discovery U ds query y))
        (search U cap ds query)
   \<and> (\<forall>d \<in> set ds. 0 < doctor_score U query d \<longrightarrow>
        doctor_canonical_key U d \<in> doctor_canonical_key U ` set (search U cap ds query)
        \<or> (\<forall>x \<in> set (search U cap ds query). doctor_score U query d \<le> doctor_score U query x))
   \<and> length (searchClubs U cap cs query) \<le> nat cap
   \<and> (query \<noteq> [] \<and> 2 \<le> length (trim U query) \<longrightarrow>
        length (searchClubs U cap cs query)
        = min (nat cap) (card (club_canonical_key U ` {c \<in> set cs. 0 < club_score U query c})))
   \<and> sorted_wrt
        (\<lambda>x y. club_score U query y < club_score U query x
               \<or> (club_score U query x = club_score U query y
                  \<and> club_discovery U cs query x < club_discovery U cs query y))
        (searchClubs U cap cs query)
   \<and> (\<forall>c \<in> set cs. 0 < club_score U query c \<longrightarrow>
        club_canonical_key U c \<in> club_canonical_key U ` set (searchClubs U cap cs query)
        \<or> (\<forall>x \<in> set (searchClubs U cap cs query). club_score U query c \<le> club_score U query x))"
proof -
  have t1: "\<forall>d \<in> set ds. 0 < doctor_score U query d \<longrightarrow>
        doctor_canonical_key U d \<in> doctor_canonical_key U ` set (search U cap ds query)
        \<or> (\<forall>x \<in> set (search U cap ds query). doctor_score U query d \<le> doctor_score U query x)"
    using search_top by blast
  have t2: "\<forall>c \<in> set cs. 0 < club_score U query c \<longrightarrow>
        club_canonical_key U c \<in> club_canonical_key U ` set (searchClubs U cap cs query)
        \<or> (\<forall>x \<in> set (searchClubs U cap cs query). club_score U query c \<le> club_score U query x)"
    using searchClubs_top by blast
  from search_length[OF assms] searchClubs_length[OF assms] search_sorted searchClubs_sorted t1 t2
  show ?thesis by (intro conjI)
qed


text \<open>With a cap of 1, the three records of the example give one result.\<close>

theorem search_truncation_and_order_witness:
  "(0::int) \<le> 1
   \<and> str ''civil'' \<noteq> [] \<and> 2 \<le> length (trim ucd (str ''civil''))
   \<and> length (search ucd 1 [ann_engineering, bob_civil, ann_civil] (str ''civil'')) = 1
   \<and> min (nat 1) (card (doctor_canonical_key ucd `
         {d \<in> set [ann_engineering, bob_civil, ann_civil]. 0 < doctor_score ucd (str ''civil'') d})) = 1"
proof -
  have c: "(0::int) \<le> 1" by simp
  have q: "str ''civil'' \<noteq> [] \<and> 2 \<le> length (trim ucd (str ''civil''))"
    by (simp add: civil_trim) (simp add: str_def)
  have l: "length (search ucd 1 [ann_engineering, bob_civil, ann_civil] (str ''civil'')) = 1"
    by (simp add: civil_search_one)
  from search_truncation_and_order[OF c, of ucd "[ann_engineering, bob_civil, ann_civil]" "str ''civil''"] q
  have "length (search ucd 1 [ann_engineering, bob_civil, ann_civil] (str ''civil''))
        = min (nat 1) (card (doctor_canonical_key ucd `
            {d \<in> set [ann_engineering, bob_civil, ann_civil]. 0 < doctor_score ucd (str ''civil'') d}))"
    by blast
  with c q l show ?thesis by simp
qed

section \<open>An exact name match outranks a containment match\<close>















lemma omar_exact:
  "normalize_text ucd (Str (field_text ucd (name omar)))
   = normalize_text ucd (Str (toLowerCase ucd (trim ucd (str ''omar''))))"
  by code_simp















section \<open>Reload\<close>

lemma first_candidate_fails:
  "\<forall>f \<in> set cs. f = Missing \<or> f = Unreadable \<Longrightarrow> first_candidate cs = Inl Error"
  by (induction cs rule: first_candidate.induct) auto

text \<open>
  The one way to \<open>ok: false\<close>: the doctors file parses to something that is not an
  array, and \<open>extractDepartments\<close> throws. The assignment to \<open>this.doctors\<close> has been
  made by then.
\<close>

lemma reload_failure_replaces_doctors:
  assumes "first_candidate (doctors_candidates env) = Inr NotAnArray"
  shows "reload U env this = (ReloadFailed TypeError, this\<lparr>doctors := NotAnArray\<rparr>)"
  using assms by (simp add: reload_def loadDoctors_def extractDepartments_def)

text \<open>
  C1 (as stated, refuted). The claim: when the loaders fail during \<open>reload()\<close>, the
  doctors and clubs loaded before stay as they were and the result has \<open>ok: false\<close>.
  With no doctors file at any candidate path, \<open>loadDoctors\<close> catches its own error and
  returns \<open>[]\<close>; \<open>reload\<close> stores that list and reports \<open>ok: true\<close>.
\<close>

theorem reload_keeps_index_counterexample:
  "first_candidate (doctors_candidates no_files) = Inl Error
   \<and> ok (fst (reload ucd no_files loaded))
   \<and> doctors (snd (reload ucd no_files loaded)) \<noteq> doctors loaded
   \<and> clubs (snd (reload ucd no_files loaded)) \<noteq> clubs loaded"
  by (simp add: reload_def loadDoctors_def loadClubs_def extractDepartments_def no_files_def
      loaded_def)

text \<open>
  C1 (amended). \<open>reload()\<close> does not throw. When no candidate path holds a doctors file
  that can be read and parsed, the loader falls back to the empty list: \<open>reload\<close>
  replaces the doctors by the empty list, rebuilds the departments from it, stores what
  the other two loaders return, and answers \<open>ok: true\<close> with \<open>doctors: 0\<close>. A clubs file
  that is missing or unreadable gives the empty clubs list in the same way.
\<close>

theorem reload_load_failure_falls_back:
  assumes "\<forall>f \<in> set (doctors_candidates env). f = Missing \<or> f = Unreadable"
  shows "reload U env this =
           (ReloadOk 0 (length (loadClubs U env)),
            this\<lparr>doctors := DoctorList [], departments := [], clubs := loadClubs U env,
                  nameSystem := loadNameSystem env\<rparr>)
         \<and> (clubs_file env = Missing \<or> clubs_file env = Unreadable \<longrightarrow> loadClubs U env = [])"
  using first_candidate_fails[OF assms]
  by (auto simp: reload_def loadDoctors_def loadClubs_def extractDepartments_def)

theorem reload_load_failure_falls_back_witness:
  "doctors_candidates no_files = [Missing, Unreadable, Missing]
   \<and> clubs_file no_files = Missing
   \<and> reload ucd no_files loaded =
       (ReloadOk 0 0, loaded\<lparr>doctors := DoctorList [], departments := [], clubs := [],
                              nameSystem := []\<rparr>)"
proof -
  have h: "\<forall>f \<in> set (doctors_candidates no_files). f = Missing \<or> f = Unreadable"
    by (simp add: no_files_def)
  have c: "clubs_file no_files = Missing"
    by (simp add: no_files_def)
  have n: "loadNameSystem no_files = []"
    by (simp add: loadNameSystem_def no_files_def)
  from reload_load_failure_falls_back[OF h, of ucd loaded] c n show ?thesis
    by (simp add: no_files_def)
qed

section \<open>The first matching pattern decides the intent\<close>

lemmas pattern_defs =
  patterns_def officeHours_patterns_def contactInfo_patterns_def officeLocation_patterns_def
  department_patterns_def whoIs_patterns_def admission_patterns_def registrar_patterns_def
  dean_patterns_def hours_words_def of_for_def contact_words_def location_words_def
  department_words_def who_where_what_def admission_words_def registrar_words_def any_text_def
  lit_def

lemma try_patterns_first:
  assumes "\<forall>x \<in> set ps. exec U (snd x) nq = None" and "exec U p nq = Some m"
  shows "try_patterns U (ps @ (i, p) # qs) nq q
         = Some \<lparr> intent = i, entity = extract_entity U p m, confidence = 8 / 10,
                  originalQuery = q \<rparr>"
  using assms by (induction ps) auto

lemma office_hours_question_parse:
  "parseNaturalLanguageQuery ucd (Str office_hours_question)
   = Inr (Some \<lparr> intent = OfficeHours, entity = str ''dr mohammad'', confidence = 8 / 10,
                  originalQuery = office_hours_question \<rparr>)"
  by (simp add: office_hours_question_def str_def ucd_def parse_text_def pattern_defs
      extract_entity_def trim_def)

lemma entity_contains_mohammad: "includes_str (str ''dr mohammad'') (str ''mohammad'')"
  by (simp add: str_def)

lemma who_is_omar_earlier_patterns:
  "\<forall>x \<in> set (take 15 patterns). exec ucd (snd x) (str ''who is omar'') = None"
  by (simp add: str_def ucd_def pattern_defs)

lemma who_is_omar_pattern:
  "patterns = take 15 patterns @ (WhoIs, hd whoIs_patterns) # drop 16 patterns"
  by (simp add: pattern_defs)

lemma who_is_omar_match:
  "\<exists>m. exec ucd (hd whoIs_patterns) (str ''who is omar'') = Some m
       \<and> extract_entity ucd (hd whoIs_patterns) m = str ''omar''"
  by (simp add: str_def ucd_def pattern_defs extract_entity_def trim_def)

lemma who_is_omar_normalized: "trim ucd (toLowerCase ucd (str ''who is omar'')) = str ''who is omar''"
  by (simp add: str_def ucd_def trim_def)


lemma parse_first_match:
  assumes "patterns = ps @ (i, p) # qs"
    and "\<forall>x \<in> set ps. exec U (snd x) (trim U (toLowerCase U query)) = None"
    and "exec U p (trim U (toLowerCase U query)) = Some m"
  shows "parseNaturalLanguageQuery U (Str query)
         = Inr (Some \<lparr> intent = i, entity = extract_entity U p m, confidence = 8 / 10,
                        originalQuery = query \<rparr>)"
  using try_patterns_first[OF assms(2,3), of i qs query]
  by (simp add: parse_text_def Let_def assms(1))


text \<open>
  C8. For \<open>what are the office hours of Dr. Mohammad?\<close> the extractor returns the intent
  \<open>officeHours\<close> with the entity \<open>dr mohammad\<close>, which contains \<open>mohammad\<close>. In general
  the first pair (intent, pattern), in declaration order, whose pattern matches the
  lowercased and trimmed query decides the result: when no earlier pattern matches and
  this one does, the function returns its intent and the entity of its match.
\<close>

theorem intent_first_match_wins:
  "parseNaturalLanguageQuery ucd (Str office_hours_question)
   = Inr (Some \<lparr> intent = OfficeHours, entity = str ''dr mohammad'', confidence = 8 / 10,
                  originalQuery = office_hours_question \<rparr>)
   \<and> includes_str (str ''dr mohammad'') (str ''mohammad'')
   \<and> (\<forall>ps i p qs m.
        patterns = ps @ (i, p) # qs
        \<and> (\<forall>x \<in> set ps. exec U (snd x) (trim U (toLowerCase U query)) = None)
        \<and> exec U p (trim U (toLowerCase U query)) = Some m
        \<longrightarrow> parseNaturalLanguageQuery U (Str query)
            = Inr (Some \<lparr> intent = i, entity = extract_entity U p m, confidence = 8 / 10,
                           originalQuery = query \<rparr>))"
  using office_hours_question_parse entity_contains_mohammad parse_first_match[of _ _ _ _ U query]
  by blast


text \<open>
  \<open>who is omar\<close>: none of the fifteen patterns declared before \<open>/who is\s+(.+)/\<close>
  matches, so the intent is \<open>whoIs\<close>.
\<close>

theorem intent_first_match_wins_witness:
  "patterns = take 15 patterns @ (WhoIs, hd whoIs_patterns) # drop 16 patterns
   \<and> (\<exists>m. exec ucd (hd whoIs_patterns) (trim ucd (toLowerCase ucd (str ''who is omar''))) = Some m
          \<and> extract_entity ucd (hd whoIs_patterns) m = str ''omar'')
   \<and> parseNaturalLanguageQuery ucd (Str (str ''who is omar''))
     = Inr (Some \<lparr> intent = WhoIs, entity = str ''omar'', confidence = 8 / 10,
                    originalQuery = str ''who is omar'' \<rparr>)"
proof -
  let ?nq = "trim ucd (toLowerCase ucd (str ''who is omar''))"
  obtain m where m: "exec ucd (hd whoIs_patterns) ?nq = Some m"
    "extract_entity ucd (hd whoIs_patterns) m = str ''omar''"
    using who_is_omar_match by (auto simp only: who_is_omar_normalized)
  have e: "\<forall>x \<in> set (take 15 patterns). exec ucd (snd x) ?nq = None"
    using who_is_omar_earlier_patterns by (simp only: who_is_omar_normalized)
  from intent_first_match_wins[of ucd "str ''who is omar''"]
  have "patterns = take 15 patterns @ (WhoIs, hd whoIs_patterns) # drop 16 patterns
        \<and> (\<forall>x \<in> set (take 15 patterns). exec ucd (snd x) ?nq = None)
        \<and> exec ucd (hd whoIs_patterns) ?nq = Some m
        \<longrightarrow> parseNaturalLanguageQuery ucd (Str (str ''who is omar''))
            = Inr (Some \<lparr> intent = WhoIs, entity = extract_entity ucd (hd whoIs_patterns) m,
                           confidence = 8 / 10, originalQuery = str ''who is omar'' \<rparr>)"
    by blast
  with who_is_omar_pattern e m
  have "parseNaturalLanguageQuery ucd (Str (str ''who is omar''))
        = Inr (Some \<lparr> intent = WhoIs, entity = str ''omar'', confidence = 8 / 10,
                       originalQuery = str ''who is omar'' \<rparr>)"
    by simp
  with who_is_omar_pattern m show ?thesis by blast
qed

section \<open>The intent extractor on absent input\<close>

text \<open>
  C3 (the code departs from the claim). The claim: \<open>parseNaturalLanguageQuery\<close> treats
  \<open>null\<close> and \<open>undefined\<close> as the empty string and never raises. The function calls
  \<open>query.toLowerCase()\<close> without the guard that \<open>normalize\<close>, \<open>search\<close> and
  \<open>searchClubs\<close> have, so both inputs raise a \<open>TypeError\<close>.
\<close>

theorem parseNaturalLanguageQuery_null_raises:
  "parseNaturalLanguageQuery U Null = Inl TypeError
   \<and> parseNaturalLanguageQuery U Undefined = Inl TypeError"
  by simp

lemma parseNaturalLanguageQuery_string_returns:
  "\<exists>r. parseNaturalLanguageQuery U (Str query) = Inr r"
  by simp

lemma parseNaturalLanguageQuery_empty_string:
  "parseNaturalLanguageQuery ucd (Str []) = Inr None"
  by (simp add: parse_text_def ucd_def trim_def patterns_def officeHours_patterns_def
      contactInfo_patterns_def officeLocation_patterns_def department_patterns_def
      whoIs_patterns_def admission_patterns_def registrar_patterns_def dean_patterns_def
      hours_words_def of_for_def contact_words_def location_words_def department_words_def
      who_where_what_def admission_words_def registrar_words_def any_text_def lit_def str_def)

end
